theory Spec2Isabelle
  imports Complex_Main "HOL-Library.Word" "HOL-Library.While_Combinator"
begin

text \<open>
  A shallow embedding of the raster editing core of DrawingMaster (\<^verbatim>\<open>src/app.js\<close>): the
  pixel accessors, the flood fill, the snapshot history with undo and redo, and the
  pointer-gesture handlers that drive the tools. Every method of the class that mutates
  \<^verbatim>\<open>this\<close> becomes a function from the application state to the new state.
\<close>

section \<open>Pixel buffers\<close>

text \<open>
  An \<^verbatim>\<open>ImageData\<close> object: \<open>width\<close>, \<open>height\<close> and \<open>data\<close>, a \<^verbatim>\<open>Uint8ClampedArray\<close> of
  RGBA bytes in row-major order. A colour is a JavaScript object with four channels, each
  an integer-valued number or \<^verbatim>\<open>undefined\<close> (\<open>None\<close>): reading the array outside its
  range yields \<^verbatim>\<open>undefined\<close>, writing outside is ignored, and a written value is clamped
  to 0..255 (\<^verbatim>\<open>undefined\<close> is stored as 0). \<open>wf_imageData\<close> is the size invariant every
  \<^verbatim>\<open>ImageData\<close> has; \<open>valid_color\<close> says all four channels are integers in 0..255.
\<close>

type_synonym jsnum = "int option"

record color =
  col_r :: jsnum
  col_g :: jsnum
  col_b :: jsnum
  col_a :: jsnum

record imageData =
  width :: nat
  height :: nat
  data :: "8 word list"

definition wf_imageData :: "imageData \<Rightarrow> bool" where
  "wf_imageData img \<longleftrightarrow> length (data img) = width img * height img * 4"

definition valid_channel :: "jsnum \<Rightarrow> bool" where
  "valid_channel v \<longleftrightarrow> (case v of None \<Rightarrow> False | Some n \<Rightarrow> 0 \<le> n \<and> n \<le> 255)"

definition valid_color :: "color \<Rightarrow> bool" where
  "valid_color c \<longleftrightarrow>
     valid_channel (col_r c) \<and> valid_channel (col_g c) \<and>
     valid_channel (col_b c) \<and> valid_channel (col_a c)"

definition dataRead :: "8 word list \<Rightarrow> int \<Rightarrow> jsnum" where
  "dataRead d i = (if 0 \<le> i \<and> i < int (length d) then Some (uint (d ! nat i)) else None)"

definition toUint8Clamped :: "jsnum \<Rightarrow> 8 word" where
  "toUint8Clamped v = (case v of None \<Rightarrow> 0 | Some n \<Rightarrow> word_of_int (max 0 (min 255 n)))"

definition dataWrite :: "8 word list \<Rightarrow> int \<Rightarrow> jsnum \<Rightarrow> 8 word list" where
  "dataWrite d i v =
     (if 0 \<le> i \<and> i < int (length d) then d[nat i := toUint8Clamped v] else d)"

definition getPixelColor :: "imageData \<Rightarrow> int \<Rightarrow> int \<Rightarrow> color" where
  "getPixelColor img x y =
     (let index = (y * int (width img) + x) * 4
      in \<lparr>col_r = dataRead (data img) index,
          col_g = dataRead (data img) (index + 1),
          col_b = dataRead (data img) (index + 2),
          col_a = dataRead (data img) (index + 3)\<rparr>)"

definition setPixelColor :: "imageData \<Rightarrow> int \<Rightarrow> int \<Rightarrow> color \<Rightarrow> imageData" where
  "setPixelColor img x y c =
     (let index = (y * int (width img) + x) * 4;
          d1 = dataWrite (data img) index (col_r c);
          d2 = dataWrite d1 (index + 1) (col_g c);
          d3 = dataWrite d2 (index + 2) (col_b c);
          d4 = dataWrite d3 (index + 3) (col_a c)
      in img\<lparr>data := d4\<rparr>)"

definition colorsEqual :: "color \<Rightarrow> color \<Rightarrow> bool" where
  "colorsEqual color1 color2 \<longleftrightarrow>
     col_r color1 = col_r color2 \<and> col_g color1 = col_g color2 \<and>
     col_b color1 = col_b color2 \<and> col_a color1 = col_a color2"

section \<open>Flood fill\<close>

text \<open>
  The \<^verbatim>\<open>while (stack.length > 0)\<close> loop of \<open>floodFill\<close>. The loop state is the pixel buffer
  (mutated in place in the source), the \<^verbatim>\<open>visited\<close> set and the stack; the head of the list
  is the top of the stack, the last element of the JavaScript array. A key
  \<^verbatim>\<open>`${x},${y}`\<close> of the visited set is modelled by the pair \<open>(x, y)\<close>: on integer
  coordinates the key determines the pair. The loop is \<open>while_option\<close>, whose value is
  \<open>None\<close> when the loop does not terminate.
\<close>

type_synonym fillState = "imageData \<times> (int \<times> int) set \<times> (int \<times> int) list"

definition floodFill_cond :: "fillState \<Rightarrow> bool" where
  "floodFill_cond st = (case st of (img, visited, stack) \<Rightarrow> stack \<noteq> [])"

definition floodFill_body :: "int \<Rightarrow> int \<Rightarrow> color \<Rightarrow> color \<Rightarrow> fillState \<Rightarrow> fillState" where
  "floodFill_body w h targetColor fillColor st =
     (case st of (img, visited, stack) \<Rightarrow>
        (case stack of
           [] \<Rightarrow> st
         | (currentX, currentY) # rest \<Rightarrow>
             if currentX < 0 \<or> currentX \<ge> w \<or> currentY < 0 \<or> currentY \<ge> h
             then (img, visited, rest)
             else if (currentX, currentY) \<in> visited
             then (img, visited, rest)
             else if \<not> colorsEqual (getPixelColor img currentX currentY) targetColor
             then (img, visited, rest)
             else (setPixelColor img currentX currentY fillColor,
                   insert (currentX, currentY) visited,
                   (currentX, currentY - 1) # (currentX, currentY + 1) #
                   (currentX - 1, currentY) # (currentX + 1, currentY) # rest)))"

definition floodFill :: "imageData \<Rightarrow> int \<Rightarrow> int \<Rightarrow> color \<Rightarrow> color \<Rightarrow> imageData option" where
  "floodFill img x y targetColor fillColor =
     map_option fst
       (while_option floodFill_cond
          (floodFill_body (int (width img)) (int (height img)) targetColor fillColor)
          (img, {}, [(x, y)]))"

text \<open>
  The specification of the fill: \<open>connected img tc sd p\<close> holds when \<open>p\<close> can be reached
  from the seed \<open>sd\<close> by steps to the east, west, south or north through in-bounds pixels
  whose colour equals \<open>tc\<close> in all four channels, the seed included. \<open>fill_measure\<close> is
  the termination measure of the loop and \<open>fill_inv\<close> its invariant.
\<close>

definition inBounds :: "imageData \<Rightarrow> int \<times> int \<Rightarrow> bool" where
  "inBounds img p \<longleftrightarrow>
     0 \<le> fst p \<and> fst p < int (width img) \<and> 0 \<le> snd p \<and> snd p < int (height img)"

definition adjacent :: "int \<times> int \<Rightarrow> int \<times> int \<Rightarrow> bool" where
  "adjacent p q \<longleftrightarrow>
     q = (fst p + 1, snd p) \<or> q = (fst p - 1, snd p) \<or>
     q = (fst p, snd p + 1) \<or> q = (fst p, snd p - 1)"

definition matches :: "imageData \<Rightarrow> color \<Rightarrow> int \<times> int \<Rightarrow> bool" where
  "matches img tc p \<longleftrightarrow>
     inBounds img p \<and> colorsEqual (getPixelColor img (fst p) (snd p)) tc"

inductive connected :: "imageData \<Rightarrow> color \<Rightarrow> int \<times> int \<Rightarrow> int \<times> int \<Rightarrow> bool"
  for img :: imageData and tc :: color and sd :: "int \<times> int" where
  seed: "matches img tc sd \<Longrightarrow> connected img tc sd sd"
| step: "connected img tc sd p \<Longrightarrow> adjacent p q \<Longrightarrow> matches img tc q
         \<Longrightarrow> connected img tc sd q"

definition fill_measure :: "int \<Rightarrow> int \<Rightarrow> fillState \<Rightarrow> nat" where
  "fill_measure w h st =
     (case st of (img, visited, stack) \<Rightarrow>
        4 * card (({0..<w} \<times> {0..<h}) - visited) + length stack)"

definition fill_inv :: "imageData \<Rightarrow> color \<Rightarrow> color \<Rightarrow> int \<times> int \<Rightarrow> fillState \<Rightarrow> bool" where
  "fill_inv img0 tc fc sd st =
     (case st of (img, visited, stack) \<Rightarrow>
        wf_imageData img \<and> width img = width img0 \<and> height img = height img0 \<and>
        (\<forall>p \<in> visited. connected img0 tc sd p) \<and>
        (\<forall>p. inBounds img0 p \<longrightarrow>
           getPixelColor img (fst p) (snd p) =
             (if p \<in> visited then fc else getPixelColor img0 (fst p) (snd p))) \<and>
        (\<forall>s \<in> set stack. matches img0 tc s \<longrightarrow> connected img0 tc sd s) \<and>
        (\<forall>p \<in> visited. \<forall>q. adjacent p q \<longrightarrow> matches img0 tc q \<longrightarrow>
           q \<in> visited \<or> q \<in> set stack) \<and>
        (matches img0 tc sd \<longrightarrow> sd \<in> visited \<or> sd \<in> set stack))"


section \<open>Canvas bitmap\<close>

text \<open>
  The bitmap of the canvas element is a buffer of its own, four bytes per pixel, that
  stores colours with premultiplied alpha, as the 8-bit canvases of browsers do:
  \<^verbatim>\<open>putImageData(img, 0, 0)\<close> multiplies the three colour channels of every pixel of \<open>img\<close>
  by \<open>alpha / 255\<close> and overwrites the rectangle that \<open>img\<close> covers,
  \<^verbatim>\<open>getImageData(0, 0, canvas.width, canvas.height)\<close> divides them by \<open>alpha / 255\<close> again.
  Both conversions round to the nearest integer (the standard leaves the rounding to the
  browser), so a pixel whose alpha is below 255 need not be read back as it was written;
  a pixel of alpha 255 is. \<open>readBack c\<close> is the colour the canvas returns for a pixel
  written with colour \<open>c\<close>. \<open>getPixelData\<close> is \<^verbatim>\<open>getImageData(x, y, 1, 1).data\<close>,
  transparent black outside the bitmap.
\<close>

definition premultiply :: "8 word \<Rightarrow> 8 word \<Rightarrow> 8 word" where
  "premultiply c alpha = of_nat ((unat c * unat alpha + 127) div 255)"

definition unpremultiply :: "8 word \<Rightarrow> 8 word \<Rightarrow> 8 word" where
  "unpremultiply c alpha =
     (if alpha = 0 then 0
      else of_nat (min 255 ((unat c * 255 + unat alpha div 2) div unat alpha)))"

fun convertData :: "(8 word \<Rightarrow> 8 word \<Rightarrow> 8 word) \<Rightarrow> 8 word list \<Rightarrow> 8 word list" where
  "convertData f (r # g # b # alpha # rest) =
     f r alpha # f g alpha # f b alpha # alpha # convertData f rest"
| "convertData f rest = rest"

definition premultiplyData :: "8 word list \<Rightarrow> 8 word list" where
  "premultiplyData d = convertData premultiply d"

definition unpremultiplyData :: "8 word list \<Rightarrow> 8 word list" where
  "unpremultiplyData d = convertData unpremultiply d"

definition getImageData :: "imageData \<Rightarrow> imageData" where
  "getImageData cv = cv\<lparr>data := unpremultiplyData (data cv)\<rparr>"

definition putImageData :: "imageData \<Rightarrow> imageData \<Rightarrow> imageData" where
  "putImageData img cv =
     (let src = premultiplyData (data img)
      in cv\<lparr>data :=
             map (\<lambda>i. let x = (i div 4) mod width cv;
                          y = (i div 4) div width cv;
                          j = (y * width img + x) * 4 + i mod 4
                      in if x < width img \<and> y < height img \<and> j < length src
                         then src ! j else data cv ! i)
                 [0..<length (data cv)]\<rparr>)"


definition getPixelData :: "imageData \<Rightarrow> int \<Rightarrow> int \<Rightarrow> 8 word list" where
  "getPixelData cv x y =
     (let index = (y * int (width cv) + x) * 4;
          bytes = data (getImageData cv)
      in if inBounds cv (x, y) \<and> index + 3 < int (length bytes)
         then take 4 (drop (nat index) bytes)
         else [0, 0, 0, 0])"

section \<open>Application state\<close>

text \<open>
  A handler either returns the new state or fails: \<open>TypeError\<close> is what
  \<^verbatim>\<open>putImageData(undefined, 0, 0)\<close> throws when the history has no entry at the cursor;
  \<open>Diverged\<close> stands for a loop that never returns. The state an uncaught exception leaves
  behind is not modelled.

  \<open>currentTool\<close> is the tool identifier (\<open>OtherTool\<close>: any string the dispatch does not
  know). The 2D context keeps the drawing settings and the current path; how the browser
  turns a stroke, a rectangle or a text into pixels is a parameter (\<open>raster\<close>), and so is
  \<^verbatim>\<open>Math.sqrt\<close>. A \<open>snapshot\<close> is an \<^verbatim>\<open>ImageData\<close> object stored in the history; \<open>snap_id\<close>
  is its object identity, allocated from \<open>nextId\<close>, so that equal pixels do not make two
  snapshots the same object.
\<close>

datatype failure = TypeError | Diverged

definition bindE :: "failure + 'a \<Rightarrow> ('a \<Rightarrow> failure + 'b) \<Rightarrow> failure + 'b" where
  "bindE m f = (case m of Inl e \<Rightarrow> Inl e | Inr v \<Rightarrow> f v)"

datatype tool =
  Pencil | Brush | Eraser | Line | Rectangle | Circle | Fill | Eyedropper | TextTool | OtherTool

datatype phase = Start | Move | End

datatype pathCmd = MoveTo real real | LineTo real real | Arc real real real

record ctx2d =
  strokeStyle :: string
  fillStyle :: string
  lineWidth :: int
  globalAlpha :: real
  globalCompositeOperation :: string
  font :: int
  path :: "pathCmd list"

record raster =
  r_stroke :: "ctx2d \<Rightarrow> imageData \<Rightarrow> imageData"
  r_strokeRect :: "ctx2d \<Rightarrow> real \<Rightarrow> real \<Rightarrow> real \<Rightarrow> real \<Rightarrow> imageData \<Rightarrow> imageData"
  r_fillText :: "ctx2d \<Rightarrow> string \<Rightarrow> real \<Rightarrow> real \<Rightarrow> imageData \<Rightarrow> imageData"
  r_sqrt :: "real \<Rightarrow> real"

record snapshot =
  snap_id :: nat
  snap_image :: imageData

record app =
  canvas :: imageData
  ctx :: ctx2d
  isDrawing :: bool
  currentTool :: tool
  currentColor :: string
  brushSize :: int
  opacity :: real
  startX :: real
  startY :: real
  endX :: real
  endY :: real
  history :: "snapshot list"
  historyIndex :: int
  maxHistorySteps :: int
  nextId :: nat

section \<open>History\<close>

text \<open>
  \<open>arrayGet\<close> is array indexing (\<^verbatim>\<open>undefined\<close> outside the range), \<open>slice0 xs e\<close> is
  \<^verbatim>\<open>xs.slice(0, e)\<close>, where a negative \<open>e\<close> counts from the end, and \<open>tl\<close> is
  \<^verbatim>\<open>shift()\<close>.
\<close>

definition arrayGet :: "'a list \<Rightarrow> int \<Rightarrow> 'a option" where
  "arrayGet xs i = (if 0 \<le> i \<and> i < int (length xs) then Some (xs ! nat i) else None)"

definition slice0 :: "'a list \<Rightarrow> int \<Rightarrow> 'a list" where
  "slice0 xs e = (if e < 0 then take (nat (int (length xs) + e)) xs else take (nat e) xs)"

definition saveState :: "app \<Rightarrow> app" where
  "saveState s =
     (let evict = int (length (history s)) > maxHistorySteps s;
          h1 = (if evict then tl (history s) else history s);
          i1 = (if evict then historyIndex s - 1 else historyIndex s);
          imageData = \<lparr>snap_id = nextId s, snap_image = getImageData (canvas s)\<rparr>;
          h2 = slice0 h1 (i1 + 1);
          h3 = h2 @ [imageData]
      in s\<lparr>history := h3, historyIndex := int (length h3) - 1, nextId := nextId s + 1\<rparr>)"

definition undo :: "app \<Rightarrow> failure + app" where
  "undo s =
     (if historyIndex s > 0
      then (let i = historyIndex s - 1
            in case arrayGet (history s) i of
                 None \<Rightarrow> Inl TypeError
               | Some snap \<Rightarrow>
                   Inr (s\<lparr>historyIndex := i,
                          canvas := putImageData (snap_image snap) (canvas s)\<rparr>))
      else Inr s)"

definition redo :: "app \<Rightarrow> failure + app" where
  "redo s =
     (if historyIndex s < int (length (history s)) - 1
      then (let i = historyIndex s + 1
            in case arrayGet (history s) i of
                 None \<Rightarrow> Inl TypeError
               | Some snap \<Rightarrow>
                   Inr (s\<lparr>historyIndex := i,
                          canvas := putImageData (snap_image snap) (canvas s)\<rparr>))
      else Inr s)"

definition redrawCanvas :: "app \<Rightarrow> failure + app" where
  "redrawCanvas s =
     (if length (history s) > 0 \<and> historyIndex s \<ge> 0
      then (case arrayGet (history s) (historyIndex s) of
              None \<Rightarrow> Inl TypeError
            | Some imageData \<Rightarrow>
                Inr (s\<lparr>canvas := putImageData (snap_image imageData) (canvas s)\<rparr>))
      else Inr s)"

definition clearCanvasToWhite :: "app \<Rightarrow> app" where
  "clearCanvasToWhite s =
     s\<lparr>canvas := (canvas s)\<lparr>data := replicate (length (data (canvas s))) 255\<rparr>\<rparr>"

definition clearCanvas :: "app \<Rightarrow> app" where
  "clearCanvas s = saveState (clearCanvasToWhite s)"

text \<open>
  \<open>pushes imgs s\<close> calls \<open>saveState\<close> once for each bitmap of \<open>imgs\<close>, the canvas showing
  that bitmap at the time of the call; \<open>pushed n imgs\<close> are the snapshots these calls
  create when the next free identity is \<open>n\<close>. \<open>cursor_inv\<close> is the cursor invariant of the
  history, \<open>hist_wf\<close> adds that the history holds distinct objects created before now and
  that the cursor of an empty history is -1.
\<close>

definition pushes :: "imageData list \<Rightarrow> app \<Rightarrow> app" where
  "pushes imgs s = fold (\<lambda>img t. saveState (t\<lparr>canvas := img\<rparr>)) imgs s"

definition pushed :: "nat \<Rightarrow> imageData list \<Rightarrow> snapshot list" where
  "pushed n imgs =
     map (\<lambda>(k, img). \<lparr>snap_id = k, snap_image = getImageData img\<rparr>)
         (zip [n..<n + length imgs] imgs)"

definition cursor_inv :: "app \<Rightarrow> bool" where
  "cursor_inv s \<longleftrightarrow>
     (history s \<noteq> [] \<longrightarrow> 0 \<le> historyIndex s \<and> historyIndex s \<le> int (length (history s)) - 1)"

definition hist_wf :: "app \<Rightarrow> bool" where
  "hist_wf s \<longleftrightarrow>
     - 1 \<le> historyIndex s \<and> historyIndex s < int (length (history s)) \<and>
     (history s \<noteq> [] \<longrightarrow> 0 \<le> historyIndex s) \<and>
     distinct (map snap_id (history s)) \<and>
     (\<forall>e \<in> set (history s). snap_id e < nextId s)"

section \<open>Colours\<close>

text \<open>
  \<open>hexMatch\<close> is the match of \<^verbatim>\<open>/^#?([a-f\d]{2})([a-f\d]{2})([a-f\d]{2})$/i\<close> with
  \<^verbatim>\<open>parseInt(_, 16)\<close> applied to the three groups. The opacity is a real number and
  \<^verbatim>\<open>Math.round\<close> rounds half up; floating-point rounding error is not modelled.
  \<open>rgbaToHex\<close> is applied to bytes of the pixel array only, which print as two digits.
\<close>

definition hexDigit :: "char \<Rightarrow> int option" where
  "hexDigit c =
     (let n = int (of_char c :: nat)
      in if 48 \<le> n \<and> n \<le> 57 then Some (n - 48)
         else if 97 \<le> n \<and> n \<le> 102 then Some (n - 87)
         else if 65 \<le> n \<and> n \<le> 70 then Some (n - 55)
         else None)"

definition parseHex2 :: "char \<Rightarrow> char \<Rightarrow> int option" where
  "parseHex2 c1 c2 =
     (case (hexDigit c1, hexDigit c2) of
        (Some hi, Some lo) \<Rightarrow> Some (16 * hi + lo)
      | _ \<Rightarrow> None)"

definition mathRound :: "real \<Rightarrow> int" where
  "mathRound v = \<lfloor>v + 1 / 2\<rfloor>"

definition hexMatch :: "string \<Rightarrow> (int \<times> int \<times> int) option" where
  "hexMatch hex =
     (let digits = (case hex of c # rest \<Rightarrow> if c = CHR ''#'' then rest else hex | [] \<Rightarrow> hex)
      in case digits of
           [c1, c2, c3, c4, c5, c6] \<Rightarrow>
             (case (parseHex2 c1 c2, parseHex2 c3 c4, parseHex2 c5 c6) of
                (Some rr, Some gg, Some bb) \<Rightarrow> Some (rr, gg, bb)
              | _ \<Rightarrow> None)
         | _ \<Rightarrow> None)"

definition hexToRgba :: "app \<Rightarrow> string \<Rightarrow> color" where
  "hexToRgba s hex =
     (case hexMatch hex of
        Some (rr, gg, bb) \<Rightarrow>
          \<lparr>col_r = Some rr, col_g = Some gg, col_b = Some bb,
           col_a = Some (mathRound (opacity s * 255))\<rparr>
      | None \<Rightarrow> \<lparr>col_r = Some 0, col_g = Some 0, col_b = Some 0, col_a = Some 255\<rparr>)"

definition hexChar :: "nat \<Rightarrow> char" where
  "hexChar n = ''0123456789abcdef'' ! (n mod 16)"

definition byteToHex :: "8 word \<Rightarrow> string" where
  "byteToHex x = [hexChar (unat x div 16), hexChar (unat x mod 16)]"

definition rgbaToHex :: "8 word \<Rightarrow> 8 word \<Rightarrow> 8 word \<Rightarrow> string" where
  "rgbaToHex rr gg bb = CHR ''#'' # byteToHex rr @ byteToHex gg @ byteToHex bb"

section \<open>Tools\<close>

text \<open>
  The tool handlers. \<open>prompt\<close> stands for the answer \<^verbatim>\<open>window.prompt\<close> gives if it is called
  during the event: \<open>None\<close> when the dialog is cancelled. A character is a code unit below
  256; \<open>isWhiteSpace\<close> lists the ones \<^verbatim>\<open>String.prototype.trim\<close> removes. Notifications,
  cursor styles and button highlighting are not modelled.
\<close>

definition selectColor :: "string \<Rightarrow> app \<Rightarrow> app" where
  "selectColor c s = s\<lparr>currentColor := c\<rparr>"

definition setupDrawingContext :: "app \<Rightarrow> app" where
  "setupDrawingContext s =
     s\<lparr>ctx := (ctx s)\<lparr>
          strokeStyle := (if currentTool s = Eraser then ''#FFFFFF'' else currentColor s),
          fillStyle := currentColor s,
          lineWidth := brushSize s,
          globalAlpha := (if currentTool s = Eraser then 1 else opacity s),
          globalCompositeOperation :=
            (if currentTool s = Eraser then ''destination-out'' else ''source-over'')\<rparr>\<rparr>"

definition beginPath :: "app \<Rightarrow> app" where
  "beginPath s = s\<lparr>ctx := (ctx s)\<lparr>path := []\<rparr>\<rparr>"

definition addPath :: "pathCmd \<Rightarrow> app \<Rightarrow> app" where
  "addPath c s = s\<lparr>ctx := (ctx s)\<lparr>path := path (ctx s) @ [c]\<rparr>\<rparr>"

definition stroke :: "raster \<Rightarrow> app \<Rightarrow> app" where
  "stroke R s = s\<lparr>canvas := r_stroke R (ctx s) (canvas s)\<rparr>"

definition strokeRect :: "raster \<Rightarrow> real \<Rightarrow> real \<Rightarrow> real \<Rightarrow> real \<Rightarrow> app \<Rightarrow> app" where
  "strokeRect R x y w h s = s\<lparr>canvas := r_strokeRect R (ctx s) x y w h (canvas s)\<rparr>"

definition handleFreeDrawing :: "raster \<Rightarrow> real \<times> real \<Rightarrow> phase \<Rightarrow> app \<Rightarrow> app" where
  "handleFreeDrawing R pos ph s =
     (if ph = Start then addPath (MoveTo (fst pos) (snd pos)) (beginPath s)
      else if ph = Move then stroke R (addPath (LineTo (fst pos) (snd pos)) s)
      else s)"

definition handleEraser :: "raster \<Rightarrow> real \<times> real \<Rightarrow> phase \<Rightarrow> app \<Rightarrow> app" where
  "handleEraser R pos ph s =
     (if ph = Start then addPath (MoveTo (fst pos) (snd pos)) (beginPath s)
      else if ph = Move then stroke R (addPath (LineTo (fst pos) (snd pos)) s)
      else s)"

definition drawLinePreview :: "raster \<Rightarrow> app \<Rightarrow> app" where
  "drawLinePreview R s =
     stroke R (addPath (LineTo (endX s) (endY s))
                 (addPath (MoveTo (startX s) (startY s)) (beginPath s)))"

definition drawLine :: "raster \<Rightarrow> app \<Rightarrow> app" where
  "drawLine R s =
     (let s1 = setupDrawingContext s
      in stroke R (addPath (LineTo (endX s1) (endY s1))
                     (addPath (MoveTo (startX s1) (startY s1)) (beginPath s1))))"

definition drawRectanglePreview :: "raster \<Rightarrow> app \<Rightarrow> app" where
  "drawRectanglePreview R s =
     strokeRect R (startX s) (startY s) (endX s - startX s) (endY s - startY s) s"

definition drawRectangle :: "raster \<Rightarrow> app \<Rightarrow> app" where
  "drawRectangle R s =
     (let s1 = setupDrawingContext s
      in strokeRect R (startX s1) (startY s1) (endX s1 - startX s1) (endY s1 - startY s1) s1)"

definition radius :: "raster \<Rightarrow> app \<Rightarrow> real" where
  "radius R s = r_sqrt R ((endX s - startX s)\<^sup>2 + (endY s - startY s)\<^sup>2)"

definition drawCirclePreview :: "raster \<Rightarrow> app \<Rightarrow> app" where
  "drawCirclePreview R s =
     stroke R (addPath (Arc (startX s) (startY s) (radius R s)) (beginPath s))"

definition drawCircle :: "raster \<Rightarrow> app \<Rightarrow> app" where
  "drawCircle R s =
     (let s1 = setupDrawingContext s
      in stroke R (addPath (Arc (startX s1) (startY s1) (radius R s1)) (beginPath s1)))"

definition handleLineDrawing :: "raster \<Rightarrow> real \<times> real \<Rightarrow> phase \<Rightarrow> app \<Rightarrow> failure + app" where
  "handleLineDrawing R pos ph s =
     (if ph = Move then bindE (redrawCanvas s) (\<lambda>t. Inr (drawLinePreview R t))
      else if ph = End then Inr (drawLine R s)
      else Inr s)"

definition handleRectangleDrawing :: "raster \<Rightarrow> real \<times> real \<Rightarrow> phase \<Rightarrow> app \<Rightarrow> failure + app" where
  "handleRectangleDrawing R pos ph s =
     (if ph = Move then bindE (redrawCanvas s) (\<lambda>t. Inr (drawRectanglePreview R t))
      else if ph = End then Inr (drawRectangle R s)
      else Inr s)"

definition handleCircleDrawing :: "raster \<Rightarrow> real \<times> real \<Rightarrow> phase \<Rightarrow> app \<Rightarrow> failure + app" where
  "handleCircleDrawing R pos ph s =
     (if ph = Move then bindE (redrawCanvas s) (\<lambda>t. Inr (drawCirclePreview R t))
      else if ph = End then Inr (drawCircle R s)
      else Inr s)"

definition handleFloodFill :: "real \<times> real \<Rightarrow> app \<Rightarrow> failure + app" where
  "handleFloodFill pos s =
     (let imageData = getImageData (canvas s);
          targetColor = getPixelColor imageData \<lfloor>fst pos\<rfloor> \<lfloor>snd pos\<rfloor>;
          fillColor = hexToRgba s (currentColor s)
      in if colorsEqual targetColor fillColor then Inr s
         else (case floodFill imageData \<lfloor>fst pos\<rfloor> \<lfloor>snd pos\<rfloor> targetColor fillColor of
                 None \<Rightarrow> Inl Diverged
               | Some filled \<Rightarrow>
                   Inr (saveState (s\<lparr>canvas := putImageData filled (canvas s)\<rparr>))))"

definition handleColorPicker :: "real \<times> real \<Rightarrow> app \<Rightarrow> app" where
  "handleColorPicker pos s =
     (let pixel = getPixelData (canvas s) \<lfloor>fst pos\<rfloor> \<lfloor>snd pos\<rfloor>
      in selectColor (rgbaToHex (pixel ! 0) (pixel ! 1) (pixel ! 2)) s)"

definition isWhiteSpace :: "char \<Rightarrow> bool" where
  "isWhiteSpace c \<longleftrightarrow> (of_char c :: nat) \<in> {9, 10, 11, 12, 13, 32, 160}"

definition trim :: "string \<Rightarrow> string" where
  "trim text = rev (dropWhile isWhiteSpace (rev (dropWhile isWhiteSpace text)))"

definition handleTextTool :: "raster \<Rightarrow> string option \<Rightarrow> real \<times> real \<Rightarrow> app \<Rightarrow> app" where
  "handleTextTool R prompt pos s =
     (case prompt of
        None \<Rightarrow> s
      | Some text \<Rightarrow>
          if text \<noteq> [] \<and> trim text \<noteq> []
          then (let s1 = setupDrawingContext s;
                    s2 = s1\<lparr>ctx := (ctx s1)\<lparr>font := brushSize s1 * 3\<rparr>\<rparr>;
                    s3 = s2\<lparr>canvas := r_fillText R (ctx s2) text (fst pos) (snd pos) (canvas s2)\<rparr>
                in saveState s3)
          else s)"

definition executeToolAction ::
    "raster \<Rightarrow> string option \<Rightarrow> real \<times> real \<Rightarrow> phase \<Rightarrow> app \<Rightarrow> failure + app" where
  "executeToolAction R prompt pos ph s =
     (case currentTool s of
        Pencil \<Rightarrow> Inr (handleFreeDrawing R pos ph s)
      | Brush \<Rightarrow> Inr (handleFreeDrawing R pos ph s)
      | Eraser \<Rightarrow> Inr (handleEraser R pos ph s)
      | Line \<Rightarrow> handleLineDrawing R pos ph s
      | Rectangle \<Rightarrow> handleRectangleDrawing R pos ph s
      | Circle \<Rightarrow> handleCircleDrawing R pos ph s
      | Fill \<Rightarrow> if ph = Start then handleFloodFill pos s else Inr s
      | Eyedropper \<Rightarrow> if ph = Start then Inr (handleColorPicker pos s) else Inr s
      | TextTool \<Rightarrow> if ph = Start then Inr (handleTextTool R prompt pos s) else Inr s
      | OtherTool \<Rightarrow> Inr s)"

section \<open>Pointer gestures\<close>

text \<open>
  The pointer handlers take the position \<open>getMousePosition\<close> computes from the event. A
  gesture is a press, any number of moves and a release, each handler running to
  completion before the next.
\<close>

definition handleMouseDown :: "raster \<Rightarrow> string option \<Rightarrow> real \<times> real \<Rightarrow> app \<Rightarrow> failure + app" where
  "handleMouseDown R prompt pos s =
     (let s1 = s\<lparr>isDrawing := True, startX := fst pos, startY := snd pos,
                 endX := fst pos, endY := snd pos\<rparr>
      in executeToolAction R prompt pos Start (setupDrawingContext s1))"

definition handleMouseMove :: "raster \<Rightarrow> string option \<Rightarrow> real \<times> real \<Rightarrow> app \<Rightarrow> failure + app" where
  "handleMouseMove R prompt pos s =
     (if isDrawing s
      then executeToolAction R prompt pos Move (s\<lparr>endX := fst pos, endY := snd pos\<rparr>)
      else Inr s)"

definition handleMouseUp :: "raster \<Rightarrow> string option \<Rightarrow> real \<times> real \<Rightarrow> app \<Rightarrow> failure + app" where
  "handleMouseUp R prompt pos s =
     (if \<not> isDrawing s then Inr s
      else bindE (executeToolAction R prompt pos End (s\<lparr>isDrawing := False\<rparr>))
             (\<lambda>t. if currentTool t \<notin> {Eyedropper, Fill} then Inr (saveState t) else Inr t))"

fun handleMoves :: "raster \<Rightarrow> string option \<Rightarrow> (real \<times> real) list \<Rightarrow> app \<Rightarrow> failure + app" where
  "handleMoves R prompt [] s = Inr s"
| "handleMoves R prompt (pos # rest) s =
     bindE (handleMouseMove R prompt pos s) (handleMoves R prompt rest)"

definition gesture ::
    "raster \<Rightarrow> string option \<Rightarrow> real \<times> real \<Rightarrow> (real \<times> real) list \<Rightarrow> real \<times> real \<Rightarrow> app
       \<Rightarrow> failure + app" where
  "gesture R prompt press moves release s =
     bindE (handleMouseDown R prompt press s)
       (\<lambda>s1. bindE (handleMoves R prompt moves s1) (handleMouseUp R prompt release))"

section \<open>Start-up\<close>

text \<open>
  \<open>constructed\<close> holds the fields as the constructor sets them, for a given canvas bitmap
  and context; \<open>initializeApp\<close> is its effect on the drawing state: the canvas is cleared to
  white and the first snapshot is saved.
\<close>

definition constructed :: "imageData \<Rightarrow> ctx2d \<Rightarrow> app" where
  "constructed cv cx =
     \<lparr>canvas = cv, ctx = cx, isDrawing = False, currentTool = Pencil,
      currentColor = ''#000000'', brushSize = 5, opacity = 1,
      startX = 0, startY = 0, endX = 0, endY = 0,
      history = [], historyIndex = - 1, maxHistorySteps = 50, nextId = 0\<rparr>"

definition initializeApp :: "app \<Rightarrow> app" where
  "initializeApp s = saveState (clearCanvasToWhite s)"

section \<open>Sample inputs\<close>

definition demo_white :: color where
  "demo_white = \<lparr>col_r = Some 255, col_g = Some 255, col_b = Some 255, col_a = Some 255\<rparr>"

definition demo_red :: color where
  "demo_red = \<lparr>col_r = Some 255, col_g = Some 0, col_b = Some 0, col_a = Some 255\<rparr>"

definition demo_strip :: imageData where
  "demo_strip = \<lparr>width = 3, height = 1,
                  data = [255, 255, 255, 255,  0, 0, 0, 255,  255, 255, 255, 255]\<rparr>"

definition demo_canvas :: imageData where
  "demo_canvas = \<lparr>width = 1, height = 1, data = [0, 0, 0, 0]\<rparr>"

definition demo_ctx :: ctx2d where
  "demo_ctx = \<lparr>strokeStyle = ''#000000'', fillStyle = ''#000000'', lineWidth = 1,
                globalAlpha = 1, globalCompositeOperation = ''source-over'',
                font = 10, path = []\<rparr>"

definition demo_raster :: raster where
  "demo_raster = \<lparr>r_stroke = (\<lambda>c img. img), r_strokeRect = (\<lambda>c x y w h img. img),
                   r_fillText = (\<lambda>c t x y img. img), r_sqrt = (\<lambda>v. v)\<rparr>"

definition demo_app :: app where
  "demo_app = initializeApp (constructed demo_canvas demo_ctx)"

definition demo_pushed :: app where
  "demo_pushed = pushes [demo_canvas, demo_canvas] demo_app"



definition demo_text :: app where
  "demo_text = demo_app\<lparr>currentTool := TextTool\<rparr>"

section \<open>Proof vocabulary\<close>

definition same_log :: "app \<Rightarrow> app \<Rightarrow> bool" where
  "same_log t s \<longleftrightarrow>
     history t = history s \<and> historyIndex t = historyIndex s \<and>
     maxHistorySteps t = maxHistorySteps s \<and> nextId t = nextId s"

definition keeps :: "app \<Rightarrow> app \<Rightarrow> bool" where
  "keeps t s \<longleftrightarrow> same_log t s \<and> isDrawing t = isDrawing s \<and> currentTool t = currentTool s"

section \<open>Proofs\<close>


lemma length_dataWrite [simp]: "length (dataWrite d i v) = length d"
  by (simp add: dataWrite_def)

lemma dataRead_dataWrite:
  "dataRead (dataWrite d i v) j =
     (if i = j \<and> 0 \<le> i \<and> i < int (length d) then Some (uint (toUint8Clamped v)) else dataRead d j)"
  by (auto simp: dataRead_def dataWrite_def nth_list_update)

lemma uint_toUint8Clamped: "valid_channel v \<Longrightarrow> Some (uint (toUint8Clamped v)) = v"
  by (auto simp: valid_channel_def toUint8Clamped_def uint_word_of_int take_bit_int_eq_self split: option.splits)

lemma pixel_index_range:
  assumes "wf_imageData img" "inBounds img (x, y)"
  shows "0 \<le> (y * int (width img) + x) * 4"
    and "(y * int (width img) + x) * 4 + 3 < int (length (data img))"
proof -
  let ?w = "int (width img)" and ?h = "int (height img)"
  from assms(2) have b: "0 \<le> x" "x < ?w" "0 \<le> y" "y < ?h" by (simp_all add: inBounds_def)
  then have "0 \<le> y * ?w" by simp
  with b show "0 \<le> (y * ?w + x) * 4" by simp
  from b have "y + 1 \<le> ?h" by simp
  then have "(y + 1) * ?w \<le> ?h * ?w" by (rule mult_right_mono) simp
  then have "y * ?w + ?w \<le> ?h * ?w" by (simp add: algebra_simps)
  with b have "y * ?w + x + 1 \<le> ?h * ?w" by linarith
  then have "(y * ?w + x + 1) * 4 \<le> ?h * ?w * 4" by simp
  moreover have "int (length (data img)) = ?h * ?w * 4"
    using assms(1) by (simp add: wf_imageData_def mult.commute)
  ultimately show "(y * ?w + x) * 4 + 3 < int (length (data img))"
    by (simp add: algebra_simps)
qed

lemma pixel_index_inj:
  fixes w :: int
  assumes "0 \<le> x" "x < w" "0 \<le> x'" "x' < w" "y * w + x = y' * w + x'"
  shows "x = x' \<and> y = y'"
proof -
  have "(y * w + x) mod w = x mod w" "(y' * w + x') mod w = x' mod w"
    by simp_all
  with assms have xx: "x = x'" by (simp add: mod_pos_pos_trivial)
  from assms have "w \<noteq> 0" by auto
  with xx assms(5) have "y = y'" by simp
  with xx show ?thesis by simp
qed

lemma width_setPixelColor [simp]: "width (setPixelColor img x y c) = width img"
  by (simp add: setPixelColor_def Let_def)

lemma height_setPixelColor [simp]: "height (setPixelColor img x y c) = height img"
  by (simp add: setPixelColor_def Let_def)

lemma length_data_setPixelColor [simp]: "length (data (setPixelColor img x y c)) = length (data img)"
  by (simp add: setPixelColor_def Let_def)

lemma wf_setPixelColor [simp]: "wf_imageData (setPixelColor img x y c) = wf_imageData img"
  by (simp add: wf_imageData_def)

lemma inBounds_setPixelColor [simp]: "inBounds (setPixelColor img x y c) p = inBounds img p"
  by (simp add: inBounds_def)

lemma getPixelColor_setPixelColor_same:
  assumes "wf_imageData img" "inBounds img (x, y)" "valid_color c"
  shows "getPixelColor (setPixelColor img x y c) x y = c"
proof -
  note r = pixel_index_range [OF assms(1,2)]
  from assms(3) have v: "valid_channel (col_r c)" "valid_channel (col_g c)"
    "valid_channel (col_b c)" "valid_channel (col_a c)" by (simp_all add: valid_color_def)
  show ?thesis
    using r by (simp add: getPixelColor_def setPixelColor_def Let_def dataRead_dataWrite
        uint_toUint8Clamped [OF v(1)] uint_toUint8Clamped [OF v(2)]
        uint_toUint8Clamped [OF v(3)] uint_toUint8Clamped [OF v(4)])
qed

lemma getPixelColor_setPixelColor_other:
  assumes "inBounds img (x, y)" "inBounds img (x', y')" "(x, y) \<noteq> (x', y')"
  shows "getPixelColor (setPixelColor img x y c) x' y' = getPixelColor img x' y'"
proof -
  let ?w = "int (width img)"
  from assms have "y * ?w + x \<noteq> y' * ?w + x'"
    using pixel_index_inj [of x ?w x' y y'] by (auto simp: inBounds_def)
  then show ?thesis
    by (simp add: getPixelColor_def setPixelColor_def Let_def dataRead_dataWrite)
qed

lemma card_unvisited_insert:
  fixes x y w h :: int
  assumes "0 \<le> x" "x < w" "0 \<le> y" "y < h" "(x, y) \<notin> visited"
  shows "card (({0..<w} \<times> {0..<h}) - insert (x, y) visited) < card (({0..<w} \<times> {0..<h}) - visited)"
proof -
  let ?B = "({0..<w} \<times> {0..<h}) - visited"
  have fin: "finite ?B" by simp
  have mem: "(x, y) \<in> ?B" using assms by simp
  have "({0..<w} \<times> {0..<h}) - insert (x, y) visited = ?B - {(x, y)}" by auto
  then show ?thesis using card_Diff1_less [OF fin mem] by simp
qed

lemma fill_measure_decreases:
  assumes "floodFill_cond st"
  shows "fill_measure w h (floodFill_body w h tc fc st) < fill_measure w h st"
proof -
  obtain img visited stack where st: "st = (img, visited, stack)" by (cases st)
  with assms obtain cx cy rest where stack: "stack = (cx, cy) # rest"
    by (cases stack) (auto simp: floodFill_cond_def)
  show ?thesis
  proof (cases "0 \<le> cx \<and> cx < w \<and> 0 \<le> cy \<and> cy < h \<and> (cx, cy) \<notin> visited
                  \<and> colorsEqual (getPixelColor img cx cy) tc")
    case True
    then have "card (({0..<w} \<times> {0..<h}) - insert (cx, cy) visited)
                 < card (({0..<w} \<times> {0..<h}) - visited)"
      by (intro card_unvisited_insert) simp_all
    with True show ?thesis
      by (simp add: st stack fill_measure_def floodFill_body_def)
  next
    case False
    then show ?thesis
      by (auto simp: st stack fill_measure_def floodFill_body_def)
  qed
qed


lemma connected_matches: "connected img tc sd p \<Longrightarrow> matches img tc p"
  by (induction rule: connected.induct) auto

lemma fill_inv_init:
  "wf_imageData img \<Longrightarrow> fill_inv img tc fc sd (img, {}, [sd])"
  by (auto simp: fill_inv_def intro: connected.seed)

lemma fill_inv_skip:
  assumes inv: "fill_inv img0 tc fc sd (img, visited, c # rest)"
    and skip: "\<not> matches img0 tc c \<or> c \<in> visited"
  shows "fill_inv img0 tc fc sd (img, visited, rest)"
proof -
  from inv have base: "wf_imageData img" "width img = width img0" "height img = height img0"
      "\<forall>p \<in> visited. connected img0 tc sd p"
      "\<forall>p. inBounds img0 p \<longrightarrow> getPixelColor img (fst p) (snd p) =
             (if p \<in> visited then fc else getPixelColor img0 (fst p) (snd p))"
    and stk: "\<forall>s \<in> set (c # rest). matches img0 tc s \<longrightarrow> connected img0 tc sd s"
    and clo: "\<forall>p \<in> visited. \<forall>q. adjacent p q \<longrightarrow> matches img0 tc q \<longrightarrow>
           q \<in> visited \<or> q \<in> set (c # rest)"
    and sd: "matches img0 tc sd \<longrightarrow> sd \<in> visited \<or> sd \<in> set (c # rest)"
    unfolding fill_inv_def by simp_all
  have 3: "\<forall>s \<in> set rest. matches img0 tc s \<longrightarrow> connected img0 tc sd s"
    using stk by simp
  have 4: "\<forall>p \<in> visited. \<forall>q. adjacent p q \<longrightarrow> matches img0 tc q \<longrightarrow>
           q \<in> visited \<or> q \<in> set rest"
  proof (intro ballI allI impI)
    fix p q assume pq: "p \<in> visited" "adjacent p q" and mq: "matches img0 tc q"
    from clo pq mq have "q \<in> visited \<or> q \<in> set (c # rest)" by blast
    then have "q \<in> visited \<or> q = c \<or> q \<in> set rest" by simp
    with skip mq show "q \<in> visited \<or> q \<in> set rest" by blast
  qed
  have 5: "matches img0 tc sd \<longrightarrow> sd \<in> visited \<or> sd \<in> set rest"
    using sd skip by auto
  from base 3 4 5 show ?thesis unfolding fill_inv_def prod.case by blast
qed

lemma fill_inv_visit:
  assumes inv: "fill_inv img0 tc fc sd (img, visited, (cx, cy) # rest)"
    and m: "matches img0 tc (cx, cy)" and nv: "(cx, cy) \<notin> visited"
    and fc: "valid_color fc"
  shows "fill_inv img0 tc fc sd
           (setPixelColor img cx cy fc, insert (cx, cy) visited,
            (cx, cy - 1) # (cx, cy + 1) # (cx - 1, cy) # (cx + 1, cy) # rest)"
proof -
  let ?c = "(cx, cy)"
  let ?stack' = "(cx, cy - 1) # (cx, cy + 1) # (cx - 1, cy) # (cx + 1, cy) # rest"
  from inv have wf: "wf_imageData img" and dims: "width img = width img0" "height img = height img0"
    and vis: "\<forall>p \<in> visited. connected img0 tc sd p"
    and pix: "\<And>p. inBounds img0 p \<Longrightarrow> getPixelColor img (fst p) (snd p) =
             (if p \<in> visited then fc else getPixelColor img0 (fst p) (snd p))"
    and stk: "\<forall>s \<in> set ((cx, cy) # rest). matches img0 tc s \<longrightarrow> connected img0 tc sd s"
    and clo: "\<forall>p \<in> visited. \<forall>q. adjacent p q \<longrightarrow> matches img0 tc q \<longrightarrow>
           q \<in> visited \<or> q \<in> set ((cx, cy) # rest)"
    and sd: "matches img0 tc sd \<longrightarrow> sd \<in> visited \<or> sd \<in> set ((cx, cy) # rest)"
    unfolding fill_inv_def by simp_all
  from stk m have conn: "connected img0 tc sd ?c" by simp
  from m have ib0: "inBounds img0 ?c" by (simp add: matches_def)
  then have ib: "inBounds img ?c" using dims by (simp add: inBounds_def)
  have 1: "\<forall>p \<in> insert ?c visited. connected img0 tc sd p" using vis conn by simp
  have 0: "wf_imageData (setPixelColor img cx cy fc)"
    "width (setPixelColor img cx cy fc) = width img0"
    "height (setPixelColor img cx cy fc) = height img0"
    using wf dims by simp_all
  have 2: "getPixelColor (setPixelColor img cx cy fc) (fst p) (snd p) =
             (if p \<in> insert ?c visited then fc else getPixelColor img0 (fst p) (snd p))"
    if "inBounds img0 p" for p
  proof (cases "p = ?c")
    case True
    then show ?thesis using getPixelColor_setPixelColor_same [OF wf ib fc] by simp
  next
    case False
    from that have "inBounds img (fst p, snd p)" using dims by (simp add: inBounds_def)
    with False ib have "getPixelColor (setPixelColor img cx cy fc) (fst p) (snd p)
        = getPixelColor img (fst p) (snd p)"
      by (intro getPixelColor_setPixelColor_other) auto
    with pix [OF that] False show ?thesis by simp
  qed
  have 3: "\<forall>s \<in> set ?stack'. matches img0 tc s \<longrightarrow> connected img0 tc sd s"
  proof (intro ballI impI)
    fix s assume s: "s \<in> set ?stack'" and ms: "matches img0 tc s"
    show "connected img0 tc sd s"
    proof (cases "s \<in> set rest")
      case True
      with stk ms show ?thesis by simp
    next
      case False
      with s have "adjacent ?c s" by (auto simp: adjacent_def)
      from connected.step [OF conn this ms] show ?thesis .
    qed
  qed
  have 4: "\<forall>p \<in> insert ?c visited. \<forall>q. adjacent p q \<longrightarrow> matches img0 tc q \<longrightarrow>
           q \<in> insert ?c visited \<or> q \<in> set ?stack'"
  proof (intro ballI allI impI)
    fix p q assume p: "p \<in> insert ?c visited" and a: "adjacent p q" and mq: "matches img0 tc q"
    show "q \<in> insert ?c visited \<or> q \<in> set ?stack'"
    proof (cases "p = ?c")
      case True
      with a show ?thesis by (auto simp: adjacent_def)
    next
      case False
      with p have "p \<in> visited" by simp
      with clo a mq have "q \<in> visited \<or> q \<in> set ((cx, cy) # rest)" by blast
      then show ?thesis by auto
    qed
  qed
  have 5: "matches img0 tc sd \<longrightarrow> sd \<in> insert ?c visited \<or> sd \<in> set ?stack'"
    using sd by auto
  from 2 have 2: "\<forall>p. inBounds img0 p \<longrightarrow>
      getPixelColor (setPixelColor img cx cy fc) (fst p) (snd p) =
        (if p \<in> insert ?c visited then fc else getPixelColor img0 (fst p) (snd p))"
    by blast
  from 0 1 2 3 4 5 show ?thesis unfolding fill_inv_def prod.case by blast
qed

lemma fill_inv_step:
  assumes inv: "fill_inv img0 tc fc sd st" and c: "floodFill_cond st" and fc: "valid_color fc"
  shows "fill_inv img0 tc fc sd
           (floodFill_body (int (width img0)) (int (height img0)) tc fc st)"
proof -
  obtain img visited stack where st: "st = (img, visited, stack)" by (cases st)
  with c obtain cx cy rest where stack: "stack = (cx, cy) # rest"
    by (cases stack) (auto simp: floodFill_cond_def)
  note inv' = inv [unfolded st stack]
  from inv' have dims: "width img = width img0" "height img = height img0"
    and pix: "\<And>p. inBounds img0 p \<Longrightarrow> getPixelColor img (fst p) (snd p) =
             (if p \<in> visited then fc else getPixelColor img0 (fst p) (snd p))"
    unfolding fill_inv_def by simp_all
  let ?w = "int (width img0)" and ?h = "int (height img0)"
  show ?thesis
  proof (cases "cx < 0 \<or> cx \<ge> ?w \<or> cy < 0 \<or> cy \<ge> ?h")
    case True
    then have "\<not> matches img0 tc (cx, cy)" by (auto simp: matches_def inBounds_def)
    then have "fill_inv img0 tc fc sd (img, visited, rest)"
      using fill_inv_skip [OF inv'] by simp
    with True show ?thesis by (simp add: st stack floodFill_body_def)
  next
    case inb: False
    then have ib0: "inBounds img0 (cx, cy)" by (auto simp: inBounds_def)
    show ?thesis
    proof (cases "(cx, cy) \<in> visited")
      case True
      then have "fill_inv img0 tc fc sd (img, visited, rest)"
        using fill_inv_skip [OF inv'] by simp
      with inb True show ?thesis by (simp add: st stack floodFill_body_def)
    next
      case nv: False
      from pix [OF ib0] nv have same: "getPixelColor img cx cy = getPixelColor img0 cx cy" by simp
      show ?thesis
      proof (cases "colorsEqual (getPixelColor img cx cy) tc")
        case False
        with same have "\<not> matches img0 tc (cx, cy)" by (simp add: matches_def)
        then have "fill_inv img0 tc fc sd (img, visited, rest)"
          using fill_inv_skip [OF inv'] by simp
        with inb nv False show ?thesis by (simp add: st stack floodFill_body_def)
      next
        case True
        with same ib0 have "matches img0 tc (cx, cy)" by (simp add: matches_def)
        from fill_inv_visit [OF inv' this nv fc] inb nv True
        show ?thesis by (simp add: st stack floodFill_body_def)
      qed
    qed
  qed
qed

lemma fill_inv_final:
  assumes inv: "fill_inv img0 tc fc sd (img, visited, [])"
  shows "visited = {p. connected img0 tc sd p}"
proof -
  from inv have vis: "\<forall>p \<in> visited. connected img0 tc sd p"
    and clo: "\<forall>p \<in> visited. \<forall>q. adjacent p q \<longrightarrow> matches img0 tc q \<longrightarrow> q \<in> visited"
    and sd: "matches img0 tc sd \<longrightarrow> sd \<in> visited"
    unfolding fill_inv_def by simp_all
  have "p \<in> visited" if "connected img0 tc sd p" for p
    using that
  proof (induction rule: connected.induct)
    case seed
    with sd show ?case by simp
  next
    case (step p q)
    with clo show ?case by blast
  qed
  with vis show ?thesis by auto
qed

subsection \<open>Flood fill: termination and result\<close>

lemma fill_loop_iterations:
  "\<exists>k \<le> fill_measure w h st.
     \<not> floodFill_cond ((floodFill_body w h tc fc ^^ k) st) \<and>
     while_option floodFill_cond (floodFill_body w h tc fc) st
       = Some ((floodFill_body w h tc fc ^^ k) st)"
proof (induction "fill_measure w h st" arbitrary: st rule: less_induct)
  case less
  let ?body = "floodFill_body w h tc fc"
  show ?case
  proof (cases "floodFill_cond st")
    case False
    then have "while_option floodFill_cond ?body st = Some st"
      by (subst while_option_unfold) simp
    with False have "\<not> floodFill_cond ((?body ^^ 0) st) \<and>
        while_option floodFill_cond ?body st = Some ((?body ^^ 0) st)" by simp
    then show ?thesis by blast
  next
    case True
    from fill_measure_decreases [OF True]
    have dec: "fill_measure w h (?body st) < fill_measure w h st" .
    from less [OF dec] obtain k where k: "k \<le> fill_measure w h (?body st)"
      and stop: "\<not> floodFill_cond ((?body ^^ k) (?body st))"
      and res: "while_option floodFill_cond ?body (?body st) = Some ((?body ^^ k) (?body st))"
      by blast
    have unf: "while_option floodFill_cond ?body st = while_option floodFill_cond ?body (?body st)"
      using True by (subst while_option_unfold) simp
    have "(?body ^^ Suc k) st = (?body ^^ k) (?body st)" by (simp add: funpow_swap1)
    with stop res unf k dec have "Suc k \<le> fill_measure w h st \<and>
        \<not> floodFill_cond ((?body ^^ Suc k) st) \<and>
        while_option floodFill_cond ?body st = Some ((?body ^^ Suc k) st)" by simp
    then show ?thesis by blast
  qed
qed

lemma fill_measure_init:
  "fill_measure (int wd) (int ht) (img, {}, [p]) = 4 * (wd * ht) + 1"
  by (simp add: fill_measure_def)

lemma floodFill_loop_terminates:
  "\<exists>t. while_option floodFill_cond (floodFill_body w h tc fc) st = Some t"
  using fill_loop_iterations [of w h st tc fc] by blast

lemma floodFill_result:
  assumes wf: "wf_imageData img" and fc: "valid_color fillColor"
  shows "\<exists>img'. floodFill img x y targetColor fillColor = Some img' \<and>
           wf_imageData img' \<and> width img' = width img \<and> height img' = height img \<and>
           (\<forall>p. inBounds img p \<longrightarrow>
              getPixelColor img' (fst p) (snd p) =
                (if connected img targetColor (x, y) p then fillColor
                 else getPixelColor img (fst p) (snd p)))"
proof -
  let ?body = "floodFill_body (int (width img)) (int (height img)) targetColor fillColor"
  let ?P = "fill_inv img targetColor fillColor (x, y)"
  obtain t where "while_option floodFill_cond ?body (img, {}, [(x, y)]) = Some t"
    using floodFill_loop_terminates by blast
  then obtain img' visited stack where
    w: "while_option floodFill_cond ?body (img, {}, [(x, y)]) = Some (img', visited, stack)"
    by (cases t) auto
  then have r: "floodFill img x y targetColor fillColor = Some img'"
    by (simp add: floodFill_def)
  from while_option_stop [OF w] have stack: "stack = []" by (simp add: floodFill_cond_def)
  have step: "\<And>s. ?P s \<Longrightarrow> floodFill_cond s \<Longrightarrow> ?P (?body s)"
    by (rule fill_inv_step) (simp_all add: fc)
  have final: "?P (img', visited, [])"
    using while_option_rule [where P = ?P, OF step w fill_inv_init [OF wf]] stack by simp
  from fill_inv_final [OF final] have v: "visited = {p. connected img targetColor (x, y) p}" .
  from final v r show ?thesis unfolding fill_inv_def by simp
qed

text \<open>
  C10: \<open>floodFill\<close> terminates for every pixel buffer, seed point and colour pair. Every
  iteration either pops a rejected coordinate or marks a fresh in-bounds coordinate as
  visited before pushing its four neighbours, so after at most \<open>4 * width * height + 1\<close>
  iterations the stack is empty and the loop returns.
\<close>

theorem floodFill_terminates:
  "\<exists>k img' visited.
     k \<le> 4 * (width img * height img) + 1 \<and>
     (floodFill_body (int (width img)) (int (height img)) targetColor fillColor ^^ k)
        (img, {}, [(x, y)]) = (img', visited, []) \<and>
     floodFill img x y targetColor fillColor = Some img'"
proof -
  let ?body = "floodFill_body (int (width img)) (int (height img)) targetColor fillColor"
  let ?init = "(img, {}, [(x, y)]) :: fillState"
  from fill_loop_iterations [of "int (width img)" "int (height img)" ?init targetColor fillColor]
  obtain k where k: "k \<le> 4 * (width img * height img) + 1"
    and stop: "\<not> floodFill_cond ((?body ^^ k) ?init)"
    and res: "while_option floodFill_cond ?body ?init = Some ((?body ^^ k) ?init)"
    unfolding fill_measure_init by blast
  obtain img' visited stack where t: "(?body ^^ k) ?init = (img', visited, stack)"
    by (cases "(?body ^^ k) ?init")
  with stop have "stack = []" by (simp add: floodFill_cond_def)
  with t res k show ?thesis by (auto simp: floodFill_def)
qed

text \<open>
  C2: on a well-formed pixel buffer and for a fill colour with channels in 0..255,
  \<open>floodFill\<close> returns a buffer of the same size in which exactly the pixels 4-connected
  to the seed through pixels of the target colour carry the fill colour, and every other
  pixel keeps its colour; a target-coloured region not connected to the seed is unchanged.
\<close>

theorem floodFill_correct:
  assumes "wf_imageData img" and "valid_color fillColor"
  shows "\<exists>img'. floodFill img x y targetColor fillColor = Some img' \<and>
           width img' = width img \<and> height img' = height img \<and>
           length (data img') = length (data img) \<and>
           (\<forall>p. inBounds img p \<longrightarrow>
              getPixelColor img' (fst p) (snd p) =
                (if connected img targetColor (x, y) p then fillColor
                 else getPixelColor img (fst p) (snd p)))"
proof -
  from floodFill_result [OF assms, of x y targetColor] obtain img' where
    r: "floodFill img x y targetColor fillColor = Some img'" "wf_imageData img'"
      "width img' = width img" "height img' = height img"
      "\<forall>p. inBounds img p \<longrightarrow>
              getPixelColor img' (fst p) (snd p) =
                (if connected img targetColor (x, y) p then fillColor
                 else getPixelColor img (fst p) (snd p))" by blast
  from r(2,3,4) assms(1) have "length (data img') = length (data img)"
    by (simp add: wf_imageData_def)
  with r show ?thesis by blast
qed

lemma demo_strip_connected:
  "connected demo_strip demo_white (0, 0) p \<Longrightarrow> p = (0, 0)"
proof (induction rule: connected.induct)
  case seed
  show ?case by simp
next
  case (step p q)
  then have "adjacent (0, 0) q" and "matches demo_strip demo_white q" by simp_all
  then show ?case
    by (auto simp: adjacent_def matches_def inBounds_def demo_strip_def demo_white_def
        colorsEqual_def getPixelColor_def dataRead_def)
qed

text \<open>
  The theorem at a 3x1 strip white, black, white filled with red from the left pixel: the
  left pixel turns red, the right white pixel is cut off by the black one and stays white.
\<close>

theorem floodFill_correct_witness:
  "wf_imageData demo_strip \<and> valid_color demo_red \<and>
   inBounds demo_strip (0, 0) \<and> inBounds demo_strip (2, 0) \<and>
   (\<exists>img'. floodFill demo_strip 0 0 demo_white demo_red = Some img' \<and>
            getPixelColor img' 0 0 = demo_red \<and>
            getPixelColor img' 2 0 = demo_white)"
proof -
  have wf: "wf_imageData demo_strip" by (simp add: wf_imageData_def demo_strip_def)
  have vc: "valid_color demo_red" by (simp add: valid_color_def valid_channel_def demo_red_def)
  have b0: "inBounds demo_strip (0, 0)" and b2: "inBounds demo_strip (2, 0)"
    by (simp_all add: inBounds_def demo_strip_def)
  have "matches demo_strip demo_white (0, 0)"
    by (simp add: matches_def inBounds_def demo_strip_def demo_white_def colorsEqual_def
        getPixelColor_def dataRead_def)
  then have c0: "connected demo_strip demo_white (0, 0) (0, 0)" by (rule connected.seed)
  have c2: "\<not> connected demo_strip demo_white (0, 0) (2, 0)"
    using demo_strip_connected [of "(2, 0)"] by auto
  have orig: "getPixelColor demo_strip 2 0 = demo_white"
    by (simp add: demo_strip_def demo_white_def getPixelColor_def dataRead_def)
  from floodFill_correct [OF wf vc, of 0 0 demo_white] obtain img' where
    r: "floodFill demo_strip 0 0 demo_white demo_red = Some img'"
    and px: "\<forall>p. inBounds demo_strip p \<longrightarrow>
              getPixelColor img' (fst p) (snd p) =
                (if connected demo_strip demo_white (0, 0) p then demo_red
                 else getPixelColor demo_strip (fst p) (snd p))" by blast
  from px b0 c0 have "getPixelColor img' 0 0 = demo_red" by fastforce
  moreover from px b2 c2 orig have "getPixelColor img' 2 0 = demo_white" by fastforce
  ultimately show ?thesis using wf vc b0 b2 r by blast
qed

subsection \<open>History\<close>

lemma saveState_fields [simp]:
  "canvas (saveState s) = canvas s" "ctx (saveState s) = ctx s"
  "isDrawing (saveState s) = isDrawing s" "currentTool (saveState s) = currentTool s"
  "currentColor (saveState s) = currentColor s" "opacity (saveState s) = opacity s"
  "maxHistorySteps (saveState s) = maxHistorySteps s" "nextId (saveState s) = Suc (nextId s)"
  by (simp_all add: saveState_def Let_def)

lemma saveState_cursor_last:
  "historyIndex (saveState s) = int (length (history (saveState s))) - 1"
  by (simp add: saveState_def Let_def)

lemma saveState_history_nonempty: "history (saveState s) \<noteq> []"
  by (simp add: saveState_def Let_def)

lemma saveState_history:
  assumes "- 1 \<le> historyIndex s" "history s \<noteq> [] \<longrightarrow> 0 \<le> historyIndex s"
  shows "history (saveState s) =
           drop (if int (length (history s)) > maxHistorySteps s then 1 else 0)
                (take (nat (historyIndex s + 1)) (history s))
           @ [\<lparr>snap_id = nextId s, snap_image = getImageData (canvas s)\<rparr>]"
proof (cases "int (length (history s)) > maxHistorySteps s")
  case True
  have "slice0 (tl (history s)) (historyIndex s - 1 + 1)
          = drop 1 (take (nat (historyIndex s + 1)) (history s))"
  proof (cases "history s")
    case Nil
    then show ?thesis by (simp add: slice0_def)
  next
    case (Cons e es)
    with assms have "0 \<le> historyIndex s" by simp
    then have "nat (historyIndex s + 1) = Suc (nat (historyIndex s))" by simp
    with Cons \<open>0 \<le> historyIndex s\<close> show ?thesis by (simp add: slice0_def)
  qed
  with True show ?thesis by (simp add: saveState_def Let_def)
next
  case False
  with assms show ?thesis by (simp add: saveState_def Let_def slice0_def)
qed

lemma saveState_at_end:
  assumes "historyIndex s = int (length (history s)) - 1"
  shows "history (saveState s) =
           (if int (length (history s)) > maxHistorySteps s then tl (history s) else history s)
           @ [\<lparr>snap_id = nextId s, snap_image = getImageData (canvas s)\<rparr>]"
proof -
  have "- 1 \<le> historyIndex s" "history s \<noteq> [] \<longrightarrow> 0 \<le> historyIndex s"
    using assms by (simp_all add: Suc_leI)
  from saveState_history [OF this] assms show ?thesis
    by (simp add: drop_Suc)
qed

lemma saveState_append:
  assumes "historyIndex s = int (length (history s)) - 1"
    and "int (length (history s)) \<le> maxHistorySteps s"
  shows "history (saveState s) =
           history s @ [\<lparr>snap_id = nextId s, snap_image = getImageData (canvas s)\<rparr>]"
    and "historyIndex (saveState s) = int (length (history s))"
  using saveState_at_end [OF assms(1)] assms(2) saveState_cursor_last [of s] by simp_all

lemma tl_drop_snoc:
  assumes "Suc k \<le> length xs"
  shows "tl (drop k xs) @ [e] = drop (Suc k) (xs @ [e])"
proof -
  have "tl (drop k xs) = drop (Suc k) xs" by (simp add: drop_Suc tl_drop)
  with assms show ?thesis by simp
qed

lemma pushed_snoc:
  "pushed n (imgs @ [img]) =
     pushed n imgs @ [\<lparr>snap_id = n + length imgs, snap_image = getImageData img\<rparr>]"
  by (simp add: pushed_def)

lemma length_pushed [simp]: "length (pushed n imgs) = length imgs"
  by (simp add: pushed_def)

lemma pushes_snoc: "pushes (imgs @ [img]) s = saveState ((pushes imgs s)\<lparr>canvas := img\<rparr>)"
  by (simp add: pushes_def)

lemma pushes_history:
  assumes "historyIndex s = int (length (history s)) - 1"
    and "0 \<le> maxHistorySteps s"
    and "int (length (history s)) \<le> maxHistorySteps s + 1"
  shows "history (pushes imgs s) =
           drop (nat (int (length (history s)) + int (length imgs) - (maxHistorySteps s + 1)))
                (history s @ pushed (nextId s) imgs)
         \<and> historyIndex (pushes imgs s) = int (length (history (pushes imgs s))) - 1
         \<and> nextId (pushes imgs s) = nextId s + length imgs
         \<and> maxHistorySteps (pushes imgs s) = maxHistorySteps s"
proof (induction imgs rule: rev_induct)
  case Nil
  with assms show ?case by (simp add: pushes_def pushed_def)
next
  case (snoc img imgs)
  let ?t = "(pushes imgs s)\<lparr>canvas := img\<rparr>"
  let ?X = "history s @ pushed (nextId s) imgs"
  let ?k = "nat (int (length (history s)) + int (length imgs) - (maxHistorySteps s + 1))"
  let ?e = "\<lparr>snap_id = nextId s + length imgs, snap_image = getImageData img\<rparr>"
  from snoc have h: "history ?t = drop ?k ?X"
    and i: "historyIndex ?t = int (length (history ?t)) - 1"
    and n: "nextId ?t = nextId s + length imgs"
    and m: "maxHistorySteps ?t = maxHistorySteps s" by simp_all
  have hist: "history (saveState ?t) =
      (if int (length (history ?t)) > maxHistorySteps ?t then tl (history ?t) else history ?t)
      @ [?e]"
    using saveState_at_end [OF i] n by simp
  have "history (saveState ?t) =
      drop (nat (int (length (history s)) + int (length (imgs @ [img])) - (maxHistorySteps s + 1)))
        (?X @ [?e])"
  proof (cases "int (length (history s)) + int (length imgs) \<ge> maxHistorySteps s + 1")
    case True
    then have len: "int (length (history ?t)) > maxHistorySteps s"
      using assms(2) by (simp add: h)
    from True assms(2) have k: "Suc ?k \<le> length ?X" by simp
    from True have k': "nat (int (length (history s)) + int (length (imgs @ [img]))
        - (maxHistorySteps s + 1)) = Suc ?k" by simp
    have "tl (drop ?k ?X) @ [?e] = drop (Suc ?k) (?X @ [?e])"
      using k by (rule tl_drop_snoc)
    with hist len m h k' show ?thesis by (simp only: if_True)
  next
    case False
    then have "?k = 0" by simp
    moreover from False have "nat (int (length (history s)) + int (length (imgs @ [img]))
        - (maxHistorySteps s + 1)) = 0" by simp
    moreover from False have "\<not> int (length (history ?t)) > maxHistorySteps s"
      by (simp add: h)
    ultimately show ?thesis using hist m h by simp
  qed
  then have A: "history (pushes (imgs @ [img]) s) =
      drop (nat (int (length (history s)) + int (length (imgs @ [img])) - (maxHistorySteps s + 1)))
        (history s @ pushed (nextId s) (imgs @ [img]))"
    by (simp only: pushes_snoc pushed_snoc append_assoc)
  have B: "historyIndex (pushes (imgs @ [img]) s)
      = int (length (history (pushes (imgs @ [img]) s))) - 1"
    by (simp only: pushes_snoc saveState_cursor_last)
  have C: "nextId (pushes (imgs @ [img]) s) = nextId s + length (imgs @ [img])"
    using n by (simp add: pushes_snoc)
  have D: "maxHistorySteps (pushes (imgs @ [img]) s) = maxHistorySteps s"
    using m by (simp add: pushes_snoc)
  from A B C D show ?case by blast
qed

lemma pushes_from_empty:
  assumes "history s = []" "historyIndex s = - 1" "0 \<le> maxHistorySteps s"
  shows "history (pushes imgs s) =
           drop (nat (int (length imgs) - (maxHistorySteps s + 1))) (pushed (nextId s) imgs)"
    and "historyIndex (pushes imgs s) = int (length (history (pushes imgs s))) - 1"
  using pushes_history [of s imgs] assms by simp_all

text \<open>
  C1 (as amended): starting from an empty history, pushing \<open>capacity + 5\<close> snapshots leaves
  \<open>capacity + 1\<close> entries with the cursor at \<open>capacity\<close>; the oldest 4 snapshots are evicted.
  The eviction test \<open>history.length > maxHistorySteps\<close> runs before the append.
\<close>

theorem history_bound_amended:
  assumes "history s = []" "historyIndex s = - 1" "maxHistorySteps s = int capacity"
    and "length imgs = capacity + 5"
  shows "length (history (pushes imgs s)) = capacity + 1
       \<and> historyIndex (pushes imgs s) = int capacity
       \<and> history (pushes imgs s) = drop 4 (pushed (nextId s) imgs)"
proof -
  have "nat (int (length imgs) - (maxHistorySteps s + 1)) = 4" using assms by simp
  with pushes_from_empty [of s imgs] assms show ?thesis by simp
qed

theorem history_bound_amended_witness:
  "history (constructed demo_canvas demo_ctx) = [] \<and>
   historyIndex (constructed demo_canvas demo_ctx) = - 1 \<and>
   maxHistorySteps (constructed demo_canvas demo_ctx) = int 50 \<and>
   length (replicate 55 demo_canvas) = 50 + 5 \<and>
   length (history (pushes (replicate 55 demo_canvas) (constructed demo_canvas demo_ctx))) = 51 \<and>
   historyIndex (pushes (replicate 55 demo_canvas) (constructed demo_canvas demo_ctx)) = 50"
  using history_bound_amended [of "constructed demo_canvas demo_ctx" 50 "replicate 55 demo_canvas"]
  by (simp add: constructed_def)

text \<open>
  C1 as stated fails: after 55 pushes from the empty history the sequence does not have
  50 entries with the cursor at 49.
\<close>

theorem history_bound_counterexample:
  "\<not> (length (history (pushes (replicate 55 demo_canvas) (constructed demo_canvas demo_ctx))) = 50
      \<and> historyIndex (pushes (replicate 55 demo_canvas) (constructed demo_canvas demo_ctx)) = 49)"
proof -
  have "history (pushes (replicate 55 demo_canvas) (constructed demo_canvas demo_ctx))
      = drop 4 (pushed 0 (replicate 55 demo_canvas))"
    using pushes_from_empty(1) [of "constructed demo_canvas demo_ctx" "replicate 55 demo_canvas"]
    by (simp add: constructed_def)
  then have "length (history (pushes (replicate 55 demo_canvas)
      (constructed demo_canvas demo_ctx))) = 51" by simp
  then show ?thesis by simp
qed

lemma length_convertData [simp]: "length (convertData f d) = length d"
  by (induction f d rule: convertData.induct) simp_all


lemma getImageData_dims [simp]:
  "width (getImageData cv) = width cv" "height (getImageData cv) = height cv"
  "length (data (getImageData cv)) = length (data cv)"
  by (simp_all add: getImageData_def unpremultiplyData_def)

lemma wf_getImageData [simp]: "wf_imageData (getImageData cv) = wf_imageData cv"
  by (simp add: wf_imageData_def)

lemma inBounds_getImageData [simp]: "inBounds (getImageData cv) p = inBounds cv p"
  by (simp add: inBounds_def)

lemma demo_app_eval:
  "demo_app = \<lparr>canvas = \<lparr>width = 1, height = 1, data = [255, 255, 255, 255]\<rparr>,
      ctx = demo_ctx, isDrawing = False, currentTool = Pencil,
      currentColor = ''#000000'', brushSize = 5, opacity = 1,
      startX = 0, startY = 0, endX = 0, endY = 0,
      history = [\<lparr>snap_id = 0, snap_image = \<lparr>width = 1, height = 1, data = [255, 255, 255, 255]\<rparr>\<rparr>],
      historyIndex = 0, maxHistorySteps = 50, nextId = 1\<rparr>"
  by (simp add: demo_app_def initializeApp_def constructed_def clearCanvasToWhite_def
      saveState_def slice0_def getImageData_def unpremultiplyData_def unpremultiply_def
      demo_canvas_def Let_def)

lemma putImageData_same_dims:
  assumes "wf_imageData img" "wf_imageData cv" "width img = width cv" "height img = height cv"
  shows "putImageData img cv = img\<lparr>data := premultiplyData (data img)\<rparr>"
proof -
  let ?w = "width cv" and ?n = "length (data cv)"
  define src where "src = premultiplyData (data img)"
  have len: "length src = ?n" "?n = ?w * height cv * 4"
    using assms by (simp_all add: wf_imageData_def src_def premultiplyData_def)
  have "data (putImageData img cv) = src"
  proof (rule nth_equalityI)
    show "length (data (putImageData img cv)) = length src"
      using len by (simp add: putImageData_def Let_def)
  next
    fix i assume "i < length (data (putImageData img cv))"
    then have i: "i < ?n" by (simp add: putImageData_def Let_def)
    with len have "i div 4 < ?w * height cv" by (simp add: less_mult_imp_div_less)
    then have wpos: "0 < ?w" and y: "(i div 4) div ?w < height cv"
      by (cases "?w = 0", simp_all add: less_mult_imp_div_less mult.commute)
    have x: "(i div 4) mod ?w < ?w" using wpos by simp
    have "((i div 4) div ?w * ?w + (i div 4) mod ?w) * 4 + i mod 4 = i" by simp
    then have j: "(i div 4) div ?w * ?w * 4 + (i div 4) mod ?w * 4 + i mod 4 = i"
      by (simp only: distrib_right)
    show "data (putImageData img cv) ! i = src ! i"
      unfolding putImageData_def Let_def src_def [symmetric]
      using i x y j assms(3,4) len(1) by simp
  qed
  moreover have "width (putImageData img cv) = width img" "height (putImageData img cv) = height img"
    using assms(3,4) by (simp_all add: putImageData_def Let_def)
  ultimately show ?thesis by (intro imageData.equality) (simp_all add: src_def)
qed

lemma putImageData_dims [simp]:
  "width (putImageData img cv) = width cv" "height (putImageData img cv) = height cv"
  "length (data (putImageData img cv)) = length (data cv)"
  by (simp_all add: putImageData_def Let_def)

lemma wf_putImageData [simp]: "wf_imageData (putImageData img cv) = wf_imageData cv"
  by (simp add: wf_imageData_def)

lemma undo_canvas_dims:
  assumes "undo s = Inr s1"
  shows "width (canvas s1) = width (canvas s)" "height (canvas s1) = height (canvas s)"
    "wf_imageData (canvas s1) = wf_imageData (canvas s)"
  using assms by (auto simp: undo_def Let_def split: if_splits option.splits)

lemma arrayGet_Some_iff:
  "arrayGet xs i = Some v \<longleftrightarrow> 0 \<le> i \<and> i < int (length xs) \<and> v = xs ! nat i"
  by (auto simp: arrayGet_def)

text \<open>
  C5: \<open>undo\<close> with the cursor at 0 and \<open>redo\<close> with the cursor at the last index return
  normally and leave the whole application state (cursor, history sequence, canvas)
  unchanged.
\<close>

theorem undo_redo_boundary_noop:
  "(historyIndex s = 0 \<longrightarrow> undo s = Inr s) \<and>
   (historyIndex s = int (length (history s)) - 1 \<longrightarrow> redo s = Inr s)"
  by (simp add: undo_def redo_def)

theorem undo_redo_boundary_noop_witness:
  "historyIndex demo_app = 0 \<and> undo demo_app = Inr demo_app \<and>
   historyIndex demo_app = int (length (history demo_app)) - 1 \<and> redo demo_app = Inr demo_app"
  using undo_redo_boundary_noop [of demo_app] by (simp add: demo_app_eval)

text \<open>
  C4: in a state with the cursor at the last entry and at least two entries, \<open>undo\<close>
  followed by \<open>redo\<close> both succeed, restore the cursor, leave the sequence untouched,
  and \<open>redo\<close> repaints the canvas from the very snapshot object (same identity, same
  pixels) that was current before the \<open>undo\<close>.
\<close>

theorem undo_redo_inverse:
  assumes "historyIndex s = int (length (history s)) - 1" and "2 \<le> length (history s)"
  shows "\<exists>s1 s2 snap.
           undo s = Inr s1 \<and> redo s1 = Inr s2 \<and>
           historyIndex s2 = historyIndex s \<and> history s2 = history s \<and>
           arrayGet (history s) (historyIndex s) = Some snap \<and>
           arrayGet (history s2) (historyIndex s2) = Some snap \<and>
           canvas s2 = putImageData (snap_image snap) (canvas s1)"
proof -
  let ?i = "historyIndex s"
  from assms have pos: "0 < ?i" and lt: "?i < int (length (history s))" by simp_all
  then obtain before where b: "arrayGet (history s) (?i - 1) = Some before"
    by (simp add: arrayGet_def)
  define s1 where "s1 = s\<lparr>historyIndex := ?i - 1,
      canvas := putImageData (snap_image before) (canvas s)\<rparr>"
  from pos b have u: "undo s = Inr s1" by (simp add: undo_def s1_def)
  from pos lt obtain snap where c: "arrayGet (history s) ?i = Some snap"
    by (simp add: arrayGet_def)
  define s2 where "s2 = s1\<lparr>historyIndex := ?i,
      canvas := putImageData (snap_image snap) (canvas s1)\<rparr>"
  from assms c have r: "redo s1 = Inr s2" by (simp add: redo_def s1_def s2_def)
  have "historyIndex s2 = ?i" "history s2 = history s"
    "canvas s2 = putImageData (snap_image snap) (canvas s1)"
    by (simp_all add: s1_def s2_def)
  with u r c show ?thesis by auto
qed

theorem undo_redo_inverse_witness:
  "historyIndex (pushes [demo_canvas] demo_app)
     = int (length (history (pushes [demo_canvas] demo_app))) - 1 \<and>
   2 \<le> length (history (pushes [demo_canvas] demo_app)) \<and>
   (\<exists>s1 s2. undo (pushes [demo_canvas] demo_app) = Inr s1 \<and> redo s1 = Inr s2 \<and>
      historyIndex s2 = 1 \<and>
      arrayGet (history s2) (historyIndex s2) = Some \<lparr>snap_id = 1, snap_image = demo_canvas\<rparr> \<and>
      canvas s2 = demo_canvas)"
proof -
  let ?s = "pushes [demo_canvas] demo_app"
  have h: "history ?s = [\<lparr>snap_id = 0, snap_image = \<lparr>width = 1, height = 1, data = [255, 255, 255, 255]\<rparr>\<rparr>,
      \<lparr>snap_id = 1, snap_image = demo_canvas\<rparr>]" and i: "historyIndex ?s = 1"
    by (simp_all add: pushes_def demo_app_eval saveState_def slice0_def getImageData_def
        unpremultiplyData_def unpremultiply_def demo_canvas_def Let_def)
  have 1: "historyIndex ?s = int (length (history ?s)) - 1" and 2: "2 \<le> length (history ?s)"
    by (simp_all add: h i)
  from undo_redo_inverse [OF 1 2] obtain s1 s2 snap where
    r: "undo ?s = Inr s1" "redo s1 = Inr s2" "historyIndex s2 = historyIndex ?s"
      "arrayGet (history ?s) (historyIndex ?s) = Some snap"
      "arrayGet (history s2) (historyIndex s2) = Some snap"
      "canvas s2 = putImageData (snap_image snap) (canvas s1)" by blast
  from r(4) have snap: "snap = \<lparr>snap_id = 1, snap_image = demo_canvas\<rparr>"
    by (simp add: h i arrayGet_def)
  have cv: "canvas ?s = demo_canvas" by (simp add: pushes_def)
  have "wf_imageData demo_canvas" by (simp add: wf_imageData_def demo_canvas_def)
  with undo_canvas_dims [OF r(1)] cv
  have "putImageData demo_canvas (canvas s1) = demo_canvas\<lparr>data := premultiplyData (data demo_canvas)\<rparr>"
    by (intro putImageData_same_dims) simp_all
  then have "putImageData demo_canvas (canvas s1) = demo_canvas"
    by (simp add: demo_canvas_def premultiplyData_def premultiply_def)
  with r snap i 1 2 show ?thesis by auto
qed

lemma saveState_fresh:
  assumes "hist_wf s" "historyIndex s < int k" "k < length (history s)"
  shows "history s ! k \<notin> set (history (saveState s))"
proof -
  let ?H = "history s" and ?n = "nat (historyIndex s + 1)"
  let ?new = "\<lparr>snap_id = nextId s, snap_image = getImageData (canvas s)\<rparr>"
  from assms(1) have lo: "- 1 \<le> historyIndex s" "?H \<noteq> [] \<longrightarrow> 0 \<le> historyIndex s"
    and d: "distinct (map snap_id ?H)" and ids: "\<forall>e \<in> set ?H. snap_id e < nextId s"
    by (simp_all add: hist_wf_def)
  from saveState_history [OF lo]
  have "set (history (saveState s)) \<subseteq> set (take ?n ?H) \<union> {?new}"
    using set_drop_subset [of _ "take ?n ?H"] by auto
  moreover have "?H ! k \<noteq> ?new"
    using ids assms(3) nth_mem [OF assms(3)] by (metis less_irrefl snapshot.select_convs(1))
  moreover have "?H ! k \<notin> set (take ?n ?H)"
  proof
    assume "?H ! k \<in> set (take ?n ?H)"
    then obtain j where j: "j < length (take ?n ?H)" "take ?n ?H ! j = ?H ! k"
      by (auto simp: in_set_conv_nth)
    then have jn: "j < ?n" "j < length ?H" "?H ! j = ?H ! k" by simp_all
    from d have "distinct ?H" by (simp add: distinct_map)
    with jn assms(3) have "j = k" by (simp add: nth_eq_iff_index_eq)
    with jn(1) assms(2) lo show False by simp
  qed
  ultimately show ?thesis by auto
qed

text \<open>
  Well-formed histories are what the application produces: the constructor's state is
  well-formed, and \<open>saveState\<close>, \<open>undo\<close> and \<open>redo\<close> keep it so.
\<close>

lemma hist_wf_constructed: "hist_wf (constructed cv cx)"
  by (simp add: hist_wf_def constructed_def)

lemma hist_wf_saveState:
  assumes "hist_wf s"
  shows "hist_wf (saveState s)"
proof -
  let ?H = "history s" and ?n = "nat (historyIndex s + 1)"
  let ?k = "if int (length ?H) > maxHistorySteps s then 1 else 0 :: nat"
  let ?new = "\<lparr>snap_id = nextId s, snap_image = getImageData (canvas s)\<rparr>"
  from assms have lo: "- 1 \<le> historyIndex s" "?H \<noteq> [] \<longrightarrow> 0 \<le> historyIndex s"
    and d: "distinct (map snap_id ?H)" and ids: "\<forall>e \<in> set ?H. snap_id e < nextId s"
    by (simp_all add: hist_wf_def)
  have h: "history (saveState s) = drop ?k (take ?n ?H) @ [?new]"
    using saveState_history [OF lo] by simp
  have sub: "set (drop ?k (take ?n ?H)) \<subseteq> set ?H"
    by (meson set_drop_subset set_take_subset subset_trans)
  have "distinct (map snap_id (drop ?k (take ?n ?H)))"
    using d by (simp add: distinct_drop distinct_take drop_map [symmetric] take_map [symmetric])
  moreover have "nextId s \<notin> snap_id ` set (drop ?k (take ?n ?H))"
    using ids sub by fastforce
  ultimately have 1: "distinct (map snap_id (history (saveState s)))"
    by (simp add: h)
  have 2: "\<forall>e \<in> set (history (saveState s)). snap_id e < nextId (saveState s)"
    using ids sub by (auto simp: h less_Suc_eq)
  from 1 2 saveState_cursor_last [of s] saveState_history_nonempty [of s]
  show ?thesis by (simp add: hist_wf_def)
qed

lemma hist_wf_undo:
  assumes "hist_wf s" "undo s = Inr s'"
  shows "hist_wf s'"
  using assms by (auto simp: hist_wf_def undo_def arrayGet_def Let_def split: if_splits)

lemma hist_wf_redo:
  assumes "hist_wf s" "redo s = Inr s'"
  shows "hist_wf s'"
  using assms by (auto simp: hist_wf_def redo_def arrayGet_def Let_def split: if_splits)

lemma hist_wf_pushes: "hist_wf s \<Longrightarrow> hist_wf (pushes imgs s)"
proof (induction imgs rule: rev_induct)
  case Nil
  then show ?case by (simp add: pushes_def)
next
  case (snoc img imgs)
  then have "hist_wf ((pushes imgs s)\<lparr>canvas := img\<rparr>)" by (simp add: hist_wf_def)
  then show ?case unfolding pushes_snoc by (rule hist_wf_saveState)
qed

text \<open>
  C6: after \<open>saveState\<close> the cursor is the last index, so \<open>redo\<close> is a no-op; in a
  well-formed history no snapshot that sat behind the cursor before the push is still
  in the sequence afterwards. In particular \<open>redo\<close> does nothing after undoing twice and
  pushing.
\<close>

theorem push_prunes_redo_branch:
  "historyIndex (saveState s) = int (length (history (saveState s))) - 1 \<and>
   redo (saveState s) = Inr (saveState s) \<and>
   (hist_wf s \<longrightarrow>
      (\<forall>k. historyIndex s < int k \<and> k < length (history s) \<longrightarrow>
           history s ! k \<notin> set (history (saveState s)))) \<and>
   (\<forall>s1 s2. undo s = Inr s1 \<and> undo s1 = Inr s2 \<longrightarrow> redo (saveState s2) = Inr (saveState s2))"
proof -
  have r: "redo (saveState t) = Inr (saveState t)" for t
    by (simp add: redo_def saveState_cursor_last)
  show ?thesis using saveState_cursor_last [of s] r saveState_fresh [of s] by blast
qed

text \<open>
  C7: \<open>0 \<le> historyIndex \<le> history.length - 1\<close> for a non-empty history
  (\<open>cursor_inv\<close>) holds after every \<open>saveState\<close>, which also leaves the history
  non-empty, and is preserved by every completed \<open>undo\<close> and \<open>redo\<close>.
\<close>

theorem cursor_invariant:
  "cursor_inv (saveState s) \<and> history (saveState s) \<noteq> [] \<and>
   (cursor_inv s \<longrightarrow>
      (\<forall>s'. undo s = Inr s' \<longrightarrow> cursor_inv s') \<and> (\<forall>s'. redo s = Inr s' \<longrightarrow> cursor_inv s'))"
proof -
  have 1: "cursor_inv (saveState s)" "history (saveState s) \<noteq> []"
    by (simp_all add: cursor_inv_def saveState_def Let_def)
  have 2: "cursor_inv s'" if "cursor_inv s" "undo s = Inr s'" for s'
    using that by (auto simp: cursor_inv_def undo_def arrayGet_def Let_def split: if_splits)
  have 3: "cursor_inv s'" if "cursor_inv s" "redo s = Inr s'" for s'
    using that by (auto simp: cursor_inv_def redo_def arrayGet_def Let_def split: if_splits)
  from 1 2 3 show ?thesis by blast
qed

lemma demo_pushed_eval:
  "history demo_pushed =
     [\<lparr>snap_id = 0, snap_image = \<lparr>width = 1, height = 1, data = [255, 255, 255, 255]\<rparr>\<rparr>,
      \<lparr>snap_id = 1, snap_image = demo_canvas\<rparr>, \<lparr>snap_id = 2, snap_image = demo_canvas\<rparr>]"
  "historyIndex demo_pushed = 2" "nextId demo_pushed = 3" "canvas demo_pushed = demo_canvas"
  by (simp_all add: demo_pushed_def pushes_def demo_app_eval saveState_def slice0_def
      getImageData_def unpremultiplyData_def unpremultiply_def demo_canvas_def Let_def)

lemma undo_step:
  assumes "0 < historyIndex s" "historyIndex s \<le> int (length (history s))"
  shows "undo s = Inr (s\<lparr>historyIndex := historyIndex s - 1,
           canvas := putImageData (snap_image (history s ! nat (historyIndex s - 1))) (canvas s)\<rparr>)"
  using assms by (simp add: undo_def arrayGet_def Let_def)

theorem push_prunes_redo_branch_witness:
  "(\<exists>s1 s2. undo demo_pushed = Inr s1 \<and> undo s1 = Inr s2 \<and>
      hist_wf s2 \<and> historyIndex s2 < int 1 \<and> 1 < length (history s2) \<and>
      history s2 ! 1 \<notin> set (history (saveState s2)) \<and>
      historyIndex (saveState s2) = int (length (history (saveState s2))) - 1 \<and>
      redo (saveState s2) = Inr (saveState s2))"
proof -
  let ?s1 = "demo_pushed\<lparr>historyIndex := 1,
      canvas := putImageData demo_canvas (canvas demo_pushed)\<rparr>"
  let ?s2 = "?s1\<lparr>historyIndex := 0,
      canvas := putImageData \<lparr>width = 1, height = 1, data = [255, 255, 255, 255]\<rparr> (canvas ?s1)\<rparr>"
  have u1: "undo demo_pushed = Inr ?s1"
    by (subst undo_step) (simp_all add: demo_pushed_eval)
  have u2: "undo ?s1 = Inr ?s2"
    by (subst undo_step) (simp_all add: demo_pushed_eval)
  have wf: "hist_wf ?s2" by (simp add: hist_wf_def demo_pushed_eval)
  have k: "historyIndex ?s2 < int 1" "1 < length (history ?s2)"
    by (simp_all add: demo_pushed_eval)
  from push_prunes_redo_branch [of ?s2] wf k
  have "history ?s2 ! 1 \<notin> set (history (saveState ?s2))"
    "historyIndex (saveState ?s2) = int (length (history (saveState ?s2))) - 1"
    "redo (saveState ?s2) = Inr (saveState ?s2)" by blast+
  with u1 u2 wf k show ?thesis by blast
qed

theorem cursor_invariant_witness:
  "cursor_inv demo_pushed \<and>
   (\<exists>s1. undo demo_pushed = Inr s1 \<and> cursor_inv s1 \<and> history s1 \<noteq> [] \<and>
      0 \<le> historyIndex s1 \<and> historyIndex s1 \<le> int (length (history s1)) - 1 \<and>
      (\<exists>s2. redo s1 = Inr s2 \<and> cursor_inv s2))"
proof -
  let ?s1 = "demo_pushed\<lparr>historyIndex := 1,
      canvas := putImageData demo_canvas (canvas demo_pushed)\<rparr>"
  have c0: "cursor_inv demo_pushed" by (simp add: cursor_inv_def demo_pushed_eval)
  have u1: "undo demo_pushed = Inr ?s1"
    by (subst undo_step) (simp_all add: demo_pushed_eval)
  from cursor_invariant [of demo_pushed] c0 u1 have c1: "cursor_inv ?s1" by blast
  have ne: "history ?s1 \<noteq> []" by (simp add: demo_pushed_eval)
  with c1 have b: "0 \<le> historyIndex ?s1" "historyIndex ?s1 \<le> int (length (history ?s1)) - 1"
    by (simp_all add: cursor_inv_def)
  obtain s2 where r: "redo ?s1 = Inr s2"
    by (simp add: redo_def arrayGet_def demo_pushed_eval)
  with cursor_invariant [of ?s1] c1 have "cursor_inv s2" by blast
  with c0 u1 c1 ne b r show ?thesis by blast
qed

subsection \<open>Fill tool\<close>








lemma hexToRgba_opacity:
  assumes "opacity s' = opacity s"
  shows "hexToRgba s' hex = hexToRgba s hex"
  unfolding hexToRgba_def assms by (rule refl)

lemma floodFill_returns: "\<exists>img'. floodFill img x y tc fc = Some img'"
  using floodFill_loop_terminates [of "int (width img)" "int (height img)" tc fc "(img, {}, [(x, y)])"]
  by (auto simp: floodFill_def)


















subsection \<open>Gestures and the history\<close>

lemma trim_Nil_iff: "trim text = [] \<longleftrightarrow> (\<forall>c \<in> set text. isWhiteSpace c)"
proof
  assume "trim text = []"
  then have all: "\<forall>c \<in> set (dropWhile isWhiteSpace text). isWhiteSpace c"
    by (simp add: trim_def dropWhile_eq_Nil_conv)
  have "dropWhile isWhiteSpace text = []"
  proof (rule ccontr)
    assume ne: "dropWhile isWhiteSpace text \<noteq> []"
    then have "\<not> isWhiteSpace (hd (dropWhile isWhiteSpace text))" by (rule hd_dropWhile)
    moreover from ne have "hd (dropWhile isWhiteSpace text) \<in> set (dropWhile isWhiteSpace text)"
      by (rule hd_in_set)
    ultimately show False using all by blast
  qed
  then show "\<forall>c \<in> set text. isWhiteSpace c" by (simp add: dropWhile_eq_Nil_conv)
next
  assume "\<forall>c \<in> set text. isWhiteSpace c"
  then have e: "dropWhile isWhiteSpace text = []" by (simp add: dropWhile_eq_Nil_conv)
  show "trim text = []" unfolding trim_def e by simp
qed

lemma setupDrawingContext_fields [simp]:
  "canvas (setupDrawingContext s) = canvas s" "isDrawing (setupDrawingContext s) = isDrawing s"
  "currentTool (setupDrawingContext s) = currentTool s"
  "history (setupDrawingContext s) = history s"
  "historyIndex (setupDrawingContext s) = historyIndex s"
  "maxHistorySteps (setupDrawingContext s) = maxHistorySteps s"
  "nextId (setupDrawingContext s) = nextId s"
  "brushSize (setupDrawingContext s) = brushSize s"
  by (simp_all add: setupDrawingContext_def)

lemma same_log_refl [simp]: "same_log s s"
  by (simp add: same_log_def)

lemma same_log_trans: "same_log u t \<Longrightarrow> same_log t s \<Longrightarrow> same_log u s"
  by (simp add: same_log_def)

lemma saveState_same_log:
  assumes "same_log t s" "canvas t = canvas s"
  shows "history (saveState t) = history (saveState s)"
    and "historyIndex (saveState t) = historyIndex (saveState s)"
    and "same_log (saveState t) (saveState s)"
  using assms by (simp_all add: same_log_def saveState_def Let_def)

lemma text_moves:
  assumes "currentTool t = TextTool" "isDrawing t"
  shows "\<exists>t'. handleMoves R prompt moves t = Inr t' \<and> currentTool t' = TextTool \<and>
           isDrawing t' \<and> same_log t' t \<and> canvas t' = canvas t"
  using assms
proof (induction moves arbitrary: t)
  case Nil
  then show ?case by simp
next
  case (Cons pos moves)
  let ?u = "t\<lparr>endX := fst pos, endY := snd pos\<rparr>"
  from Cons.prems have m: "handleMouseMove R prompt pos t = Inr ?u"
    by (simp add: handleMouseMove_def executeToolAction_def)
  from Cons.prems have "currentTool ?u = TextTool" "isDrawing ?u" by simp_all
  from Cons.IH [OF this] obtain t' where
    "handleMoves R prompt moves ?u = Inr t'" "currentTool t' = TextTool" "isDrawing t'"
    "same_log t' ?u" "canvas t' = canvas ?u" by blast
  with m show ?case by (simp add: bindE_def same_log_def)
qed

lemma text_release:
  assumes "currentTool t = TextTool" "isDrawing t"
  shows "handleMouseUp R prompt pos t = Inr (saveState (t\<lparr>isDrawing := False\<rparr>))"
  using assms by (simp add: handleMouseUp_def executeToolAction_def bindE_def)

lemma saveState_new_entry:
  assumes "\<forall>e \<in> set (history s). snap_id e < nextId s"
  shows "history (saveState s) \<noteq> history s"
proof
  assume eq: "history (saveState s) = history s"
  have "last (history (saveState s)) = \<lparr>snap_id = nextId s, snap_image = getImageData (canvas s)\<rparr>"
    by (simp add: saveState_def Let_def)
  moreover have "last (history (saveState s)) \<in> set (history (saveState s))"
    using saveState_history_nonempty by (rule last_in_set)
  ultimately have "\<lparr>snap_id = nextId s, snap_image = getImageData (canvas s)\<rparr> \<in> set (history s)"
    using eq by simp
  with assms show False by fastforce
qed

text \<open>
  C8: a complete text-tool gesture whose prompt is cancelled, empty or whitespace-only
  renders nothing (the canvas is unchanged), but the history is not as it was before: the
  release handler \<open>handleMouseUp\<close> calls \<open>saveState\<close> for every tool except the eyedropper
  and the fill tool, so the gesture ends with exactly the history and cursor of one
  \<open>saveState\<close>, which differ from those before the gesture.
\<close>

theorem text_cancel_pushes_snapshot:
  assumes "currentTool s = TextTool"
    and "prompt = None \<or> (\<exists>text. prompt = Some text \<and> (\<forall>c \<in> set text. isWhiteSpace c))"
    and "hist_wf s"
  shows "\<exists>s'. gesture R prompt press moves release s = Inr s' \<and>
           canvas s' = canvas s \<and>
           history s' = history (saveState s) \<and>
           historyIndex s' = historyIndex (saveState s) \<and>
           history s' \<noteq> history s"
proof -
  let ?s0 = "setupDrawingContext (s\<lparr>isDrawing := True, startX := fst press, startY := snd press,
                 endX := fst press, endY := snd press\<rparr>)"
  from assms(2) have "handleTextTool R prompt press ?s0 = ?s0"
    by (auto simp: handleTextTool_def trim_Nil_iff)
  with assms(1) have down: "handleMouseDown R prompt press s = Inr ?s0"
    by (simp add: handleMouseDown_def executeToolAction_def Let_def)
  have s0: "currentTool ?s0 = TextTool" "isDrawing ?s0" "same_log ?s0 s" "canvas ?s0 = canvas s"
    using assms(1) by (simp_all add: same_log_def)
  from text_moves [OF s0(1,2), of R prompt moves] obtain t where
    t: "handleMoves R prompt moves ?s0 = Inr t" "currentTool t = TextTool" "isDrawing t"
       "same_log t ?s0" "canvas t = canvas ?s0" by blast
  let ?u = "t\<lparr>isDrawing := False\<rparr>"
  from text_release [OF t(2,3)] have up: "handleMouseUp R prompt release t = Inr (saveState ?u)" .
  have g: "gesture R prompt press moves release s = Inr (saveState ?u)"
    using down t(1) up by (simp add: gesture_def bindE_def)
  have log: "same_log ?u s" "canvas ?u = canvas s"
    using t(4,5) s0(3,4) by (simp_all add: same_log_def)
  from saveState_same_log [OF log] have
    h: "history (saveState ?u) = history (saveState s)"
       "historyIndex (saveState ?u) = historyIndex (saveState s)" by simp_all
  have "history (saveState s) \<noteq> history s"
    using assms(3) by (intro saveState_new_entry) (simp add: hist_wf_def)
  with g h log(2) show ?thesis by simp
qed

text \<open>
  C9: a text-tool gesture with a non-blank answer records two snapshots, not one:
  \<open>handleTextTool\<close> calls \<open>saveState\<close> after rendering, and \<open>handleMouseUp\<close> calls it again
  on release. (Strokes and shapes record one snapshot, a fill at most one: lemmas
  \<open>stroke_or_shape_pushes_once\<close> and \<open>fill_pushes_at_most_once\<close> below.)
\<close>

theorem text_stamp_pushes_twice:
  assumes "currentTool s = TextTool"
    and "prompt = Some text" and "\<exists>c \<in> set text. \<not> isWhiteSpace c"
  shows "\<exists>s' cv. gesture R prompt press moves release s = Inr s' \<and>
           canvas s' = cv \<and>
           history s' = history (saveState (saveState (s\<lparr>canvas := cv\<rparr>))) \<and>
           historyIndex s' = historyIndex (saveState (saveState (s\<lparr>canvas := cv\<rparr>)))"
proof -
  let ?s0 = "setupDrawingContext (s\<lparr>isDrawing := True, startX := fst press, startY := snd press,
                 endX := fst press, endY := snd press\<rparr>)"
  from assms(3) have ne: "text \<noteq> []" "trim text \<noteq> []" by (auto simp: trim_Nil_iff)
  define s2 where "s2 = (setupDrawingContext ?s0)\<lparr>ctx :=
      (ctx (setupDrawingContext ?s0))\<lparr>font := brushSize (setupDrawingContext ?s0) * 3\<rparr>\<rparr>"
  define cv where "cv = r_fillText R (ctx s2) text (fst press) (snd press) (canvas s2)"
  define s3 where "s3 = s2\<lparr>canvas := cv\<rparr>"
  from ne assms(2) have tt: "handleTextTool R prompt press ?s0 = saveState s3"
    by (simp add: handleTextTool_def Let_def s2_def s3_def cv_def)
  with assms(1) have down: "handleMouseDown R prompt press s = Inr (saveState s3)"
    by (simp add: handleMouseDown_def executeToolAction_def Let_def)
  have s3: "currentTool s3 = TextTool" "isDrawing s3" "same_log s3 (s\<lparr>canvas := cv\<rparr>)"
    "canvas s3 = canvas (s\<lparr>canvas := cv\<rparr>)"
    using assms(1) by (simp_all add: s3_def s2_def same_log_def)
  let ?a = "saveState s3"
  have a: "currentTool ?a = TextTool" "isDrawing ?a" using s3(1,2) by simp_all
  from text_moves [OF a, of R prompt moves] obtain t where
    t: "handleMoves R prompt moves ?a = Inr t" "currentTool t = TextTool" "isDrawing t"
       "same_log t ?a" "canvas t = canvas ?a" by blast
  let ?u = "t\<lparr>isDrawing := False\<rparr>"
  from text_release [OF t(2,3)] have up: "handleMouseUp R prompt release t = Inr (saveState ?u)" .
  have g: "gesture R prompt press moves release s = Inr (saveState ?u)"
    using down t(1) up by (simp add: gesture_def bindE_def)
  have "same_log ?a (saveState (s\<lparr>canvas := cv\<rparr>))"
    "canvas ?a = canvas (saveState (s\<lparr>canvas := cv\<rparr>))"
    using saveState_same_log(3) [OF s3(3,4)] s3(4) by simp_all
  with t(4,5) have log: "same_log ?u (saveState (s\<lparr>canvas := cv\<rparr>))"
    "canvas ?u = canvas (saveState (s\<lparr>canvas := cv\<rparr>))"
    by (simp_all add: same_log_def)
  from saveState_same_log [OF log] have
    "history (saveState ?u) = history (saveState (saveState (s\<lparr>canvas := cv\<rparr>)))"
    "historyIndex (saveState ?u) = historyIndex (saveState (saveState (s\<lparr>canvas := cv\<rparr>)))"
    by simp_all
  moreover have "canvas (saveState ?u) = cv" using log(2) by simp
  ultimately show ?thesis using g by blast
qed

lemma isWhiteSpace_space: "isWhiteSpace CHR '' ''"
  by (simp add: isWhiteSpace_def)

lemma not_isWhiteSpace_h: "\<not> isWhiteSpace CHR ''h''"
  by (simp add: isWhiteSpace_def)

lemma demo_text_log:
  "history demo_text = [\<lparr>snap_id = 0, snap_image = \<lparr>width = 1, height = 1, data = [255, 255, 255, 255]\<rparr>\<rparr>]"
  "historyIndex demo_text = 0" "maxHistorySteps demo_text = 50" "nextId demo_text = 1"
  "currentTool demo_text = TextTool"
  by (simp_all add: demo_text_def demo_app_eval)

theorem text_cancel_pushes_snapshot_witness:
  "currentTool demo_text = TextTool \<and> isWhiteSpace CHR '' '' \<and> hist_wf demo_text \<and>
   length (history demo_text) = 1 \<and>
   (\<exists>s'. gesture demo_raster (Some ''  '') (0, 0) [] (0, 0) demo_text = Inr s' \<and>
         canvas s' = canvas demo_text \<and>
         length (history s') = 2 \<and> historyIndex s' = 1)"
proof -
  have wf: "hist_wf demo_text" by (simp add: hist_wf_def demo_text_log)
  have blank: "Some ''  '' = None \<or>
      (\<exists>text. Some ''  '' = Some text \<and> (\<forall>c \<in> set text. isWhiteSpace c))"
    by (simp add: isWhiteSpace_space)
  from text_cancel_pushes_snapshot [OF demo_text_log(5) blank wf,
      of demo_raster "(0, 0)" "[]" "(0, 0)"]
  obtain s' where s': "gesture demo_raster (Some ''  '') (0, 0) [] (0, 0) demo_text = Inr s'"
    "canvas s' = canvas demo_text" "history s' = history (saveState demo_text)"
    "historyIndex s' = historyIndex (saveState demo_text)" by blast
  have "length (history (saveState demo_text)) = 2" "historyIndex (saveState demo_text) = 1"
    using saveState_append [of demo_text] by (simp_all add: demo_text_log)
  with s' wf show ?thesis by (auto simp: demo_text_log isWhiteSpace_space)
qed

theorem text_stamp_pushes_twice_witness:
  "currentTool demo_text = TextTool \<and> \<not> isWhiteSpace CHR ''h'' \<and>
   length (history demo_text) = 1 \<and>
   (\<exists>s'. gesture demo_raster (Some ''hi'') (0, 0) [] (0, 0) demo_text = Inr s' \<and>
         length (history s') = 3 \<and> historyIndex s' = 2)"
proof -
  have ne: "\<exists>c \<in> set ''hi''. \<not> isWhiteSpace c" by (simp add: not_isWhiteSpace_h)
  from text_stamp_pushes_twice [OF demo_text_log(5) refl ne, of demo_raster "(0, 0)" "[]" "(0, 0)"]
  obtain s' cv where s': "gesture demo_raster (Some ''hi'') (0, 0) [] (0, 0) demo_text = Inr s'"
    "history s' = history (saveState (saveState (demo_text\<lparr>canvas := cv\<rparr>)))"
    "historyIndex s' = historyIndex (saveState (saveState (demo_text\<lparr>canvas := cv\<rparr>)))"
    by blast
  let ?a = "saveState (demo_text\<lparr>canvas := cv\<rparr>)"
  have a: "length (history ?a) = 2" "historyIndex ?a = 1" "maxHistorySteps ?a = 50"
    using saveState_append [of "demo_text\<lparr>canvas := cv\<rparr>"] by (simp_all add: demo_text_log)
  have "length (history (saveState ?a)) = 3" "historyIndex (saveState ?a) = 2"
    using saveState_append [of ?a] a by simp_all
  with s' show ?thesis by (auto simp: demo_text_log not_isWhiteSpace_h)
qed

lemma keeps_refl [simp]: "keeps s s"
  by (simp add: keeps_def)

lemma keeps_trans: "keeps u t \<Longrightarrow> keeps t s \<Longrightarrow> keeps u s"
  by (simp add: keeps_def same_log_def)

lemma keeps_drawing:
  "keeps (setupDrawingContext s) s" "keeps (beginPath s) s" "keeps (addPath c s) s"
  "keeps (stroke R s) s" "keeps (strokeRect R x y w h s) s"
  "keeps (s\<lparr>endX := ex, endY := ey\<rparr>) s"
  by (simp_all add: keeps_def same_log_def setupDrawingContext_def beginPath_def addPath_def
      stroke_def strokeRect_def)

lemma keeps_tools:
  "keeps (handleFreeDrawing R pos ph s) s" "keeps (handleEraser R pos ph s) s"
  "keeps (drawLinePreview R s) s" "keeps (drawLine R s) s"
  "keeps (drawRectanglePreview R s) s" "keeps (drawRectangle R s) s"
  "keeps (drawCirclePreview R s) s" "keeps (drawCircle R s) s"
  "keeps (handleColorPicker pos s) s"
  by (simp_all add: keeps_def same_log_def handleFreeDrawing_def handleEraser_def
      drawLinePreview_def drawLine_def drawRectanglePreview_def drawRectangle_def
      drawCirclePreview_def drawCircle_def handleColorPicker_def selectColor_def
      setupDrawingContext_def beginPath_def addPath_def stroke_def strokeRect_def Let_def)

lemma redrawCanvas_keeps:
  assumes "historyIndex s < int (length (history s))"
  shows "\<exists>t. redrawCanvas s = Inr t \<and> keeps t s"
  using assms by (auto simp: redrawCanvas_def arrayGet_def keeps_def same_log_def)

lemma shape_keeps:
  assumes "historyIndex s < int (length (history s))"
  shows "\<exists>t. handleLineDrawing R pos ph s = Inr t \<and> keeps t s"
    and "\<exists>t. handleRectangleDrawing R pos ph s = Inr t \<and> keeps t s"
    and "\<exists>t. handleCircleDrawing R pos ph s = Inr t \<and> keeps t s"
proof -
  from redrawCanvas_keeps [OF assms] obtain u where u: "redrawCanvas s = Inr u" "keeps u s"
    by blast
  show "\<exists>t. handleLineDrawing R pos ph s = Inr t \<and> keeps t s"
    using u keeps_trans [OF keeps_tools(3) u(2)] keeps_tools(4)
    by (auto simp: handleLineDrawing_def bindE_def)
  show "\<exists>t. handleRectangleDrawing R pos ph s = Inr t \<and> keeps t s"
    using u keeps_trans [OF keeps_tools(5) u(2)] keeps_tools(6)
    by (auto simp: handleRectangleDrawing_def bindE_def)
  show "\<exists>t. handleCircleDrawing R pos ph s = Inr t \<and> keeps t s"
    using u keeps_trans [OF keeps_tools(7) u(2)] keeps_tools(8)
    by (auto simp: handleCircleDrawing_def bindE_def)
qed

lemma action_keeps:
  assumes "historyIndex s < int (length (history s))" and "ph \<noteq> Start \<or> currentTool s \<notin> {Fill, TextTool}"
  shows "\<exists>t. executeToolAction R prompt pos ph s = Inr t \<and> keeps t s"
proof (cases "currentTool s")
  case Line
  with shape_keeps(1) [OF assms(1)] show ?thesis by (simp add: executeToolAction_def)
next
  case Rectangle
  with shape_keeps(2) [OF assms(1)] show ?thesis by (simp add: executeToolAction_def)
next
  case Circle
  with shape_keeps(3) [OF assms(1)] show ?thesis by (simp add: executeToolAction_def)
qed (use assms(2) in \<open>simp_all add: executeToolAction_def keeps_tools\<close>)

lemma moves_keep:
  assumes "historyIndex t < int (length (history t))"
  shows "\<exists>t'. handleMoves R prompt moves t = Inr t' \<and> keeps t' t"
  using assms
proof (induction moves arbitrary: t)
  case Nil
  then show ?case by simp
next
  case (Cons pos moves)
  have "\<exists>u. handleMouseMove R prompt pos t = Inr u \<and> keeps u t"
  proof (cases "isDrawing t")
    case True
    let ?v = "t\<lparr>endX := fst pos, endY := snd pos\<rparr>"
    from Cons.prems have "historyIndex ?v < int (length (history ?v))" by simp
    from action_keeps [OF this, of Move R prompt pos] obtain u where
      "executeToolAction R prompt pos Move ?v = Inr u" "keeps u ?v" by auto
    with True keeps_trans [OF _ keeps_drawing(6)] show ?thesis
      by (auto simp: handleMouseMove_def)
  next
    case False
    then show ?thesis by (simp add: handleMouseMove_def)
  qed
  then obtain u where u: "handleMouseMove R prompt pos t = Inr u" "keeps u t" by blast
  with Cons.prems have "historyIndex u < int (length (history u))"
    by (simp add: keeps_def same_log_def)
  from Cons.IH [OF this] obtain t' where "handleMoves R prompt moves u = Inr t'" "keeps t' u"
    by blast
  with u keeps_trans show ?case by (auto simp: bindE_def)
qed

lemma stroke_or_shape_pushes_once:
  assumes "currentTool s \<in> {Pencil, Brush, Eraser, Line, Rectangle, Circle}"
    and "historyIndex s < int (length (history s))"
  shows "\<exists>s'. gesture R prompt press moves release s = Inr s' \<and>
           history s' = history (saveState (s\<lparr>canvas := canvas s'\<rparr>)) \<and>
           historyIndex s' = historyIndex (saveState (s\<lparr>canvas := canvas s'\<rparr>))"
proof -
  let ?s1 = "s\<lparr>isDrawing := True, startX := fst press, startY := snd press,
                 endX := fst press, endY := snd press\<rparr>"
  let ?s0 = "setupDrawingContext ?s1"
  have s0: "same_log ?s0 s" "isDrawing ?s0" "currentTool ?s0 = currentTool s"
    by (simp_all add: same_log_def)
  with assms have "historyIndex ?s0 < int (length (history ?s0))"
    "Start \<noteq> Start \<or> currentTool ?s0 \<notin> {Fill, TextTool}" by (auto simp: same_log_def)
  from action_keeps [OF this, of R prompt press] obtain a where
    a: "executeToolAction R prompt press Start ?s0 = Inr a" "keeps a ?s0" by blast
  then have down: "handleMouseDown R prompt press s = Inr a"
    by (simp add: handleMouseDown_def Let_def)
  from a(2) s0 assms(2) have "historyIndex a < int (length (history a))"
    by (simp add: keeps_def same_log_def)
  from moves_keep [OF this, of R prompt moves] obtain t where
    t: "handleMoves R prompt moves a = Inr t" "keeps t a" by blast
  from t(2) a(2) s0 have t': "same_log t s" "isDrawing t" "currentTool t = currentTool s"
    by (simp_all add: keeps_def same_log_def)
  let ?v = "t\<lparr>isDrawing := False\<rparr>"
  from t' assms(2) have "historyIndex ?v < int (length (history ?v))" by (simp add: same_log_def)
  from action_keeps [OF this, of End R prompt release] obtain u where
    u: "executeToolAction R prompt release End ?v = Inr u" "keeps u ?v" by auto
  from u(2) t' have u': "same_log u s" "currentTool u = currentTool s"
    by (simp_all add: keeps_def same_log_def)
  with assms(1) t'(2) u(1) have up: "handleMouseUp R prompt release t = Inr (saveState u)"
    by (auto simp: handleMouseUp_def bindE_def)
  have g: "gesture R prompt press moves release s = Inr (saveState u)"
    using down t(1) up by (simp add: gesture_def bindE_def)
  have "same_log u (s\<lparr>canvas := canvas u\<rparr>)" "canvas u = canvas (s\<lparr>canvas := canvas u\<rparr>)"
    using u'(1) by (simp_all add: same_log_def)
  from saveState_same_log(1,2) [OF this] g show ?thesis by simp
qed

lemma handleFloodFill_cases:
  "\<exists>t. handleFloodFill pos s = Inr t \<and>
       (if colorsEqual (getPixelColor (getImageData (canvas s)) \<lfloor>fst pos\<rfloor> \<lfloor>snd pos\<rfloor>)
              (hexToRgba s (currentColor s))
        then t = s else (\<exists>cv. t = saveState (s\<lparr>canvas := cv\<rparr>)))"
proof (cases "colorsEqual (getPixelColor (getImageData (canvas s)) \<lfloor>fst pos\<rfloor> \<lfloor>snd pos\<rfloor>)
                  (hexToRgba s (currentColor s))")
  case True
  then show ?thesis by (simp add: handleFloodFill_def)
next
  case False
  obtain filled where "floodFill (getImageData (canvas s)) \<lfloor>fst pos\<rfloor> \<lfloor>snd pos\<rfloor>
      (getPixelColor (getImageData (canvas s)) \<lfloor>fst pos\<rfloor> \<lfloor>snd pos\<rfloor>)
      (hexToRgba s (currentColor s)) = Some filled"
    using floodFill_returns by blast
  with False show ?thesis by (auto simp: handleFloodFill_def)
qed

lemma fill_pushes_at_most_once:
  assumes "currentTool s = Fill" and "historyIndex s < int (length (history s))"
  shows "\<exists>s'. gesture R prompt press moves release s = Inr s' \<and>
           (if colorsEqual (getPixelColor (getImageData (canvas s)) \<lfloor>fst press\<rfloor> \<lfloor>snd press\<rfloor>)
                 (hexToRgba s (currentColor s))
            then history s' = history s \<and> historyIndex s' = historyIndex s \<and> canvas s' = canvas s
            else history s' = history (saveState (s\<lparr>canvas := canvas s'\<rparr>)) \<and>
                 historyIndex s' = historyIndex (saveState (s\<lparr>canvas := canvas s'\<rparr>)))"
proof -
  let ?s1 = "s\<lparr>isDrawing := True, startX := fst press, startY := snd press,
                 endX := fst press, endY := snd press\<rparr>"
  let ?s0 = "setupDrawingContext ?s1"
  let ?eq = "colorsEqual (getPixelColor (getImageData (canvas s)) \<lfloor>fst press\<rfloor> \<lfloor>snd press\<rfloor>)
                 (hexToRgba s (currentColor s))"
  have col: "hexToRgba ?s0 (currentColor ?s0) = hexToRgba s (currentColor s)"
    using hexToRgba_opacity [of ?s0 s "currentColor s"] by (simp add: setupDrawingContext_def)
  from handleFloodFill_cases [of press ?s0] col obtain a where
    a: "handleFloodFill press ?s0 = Inr a"
       "if ?eq then a = ?s0 else (\<exists>cv. a = saveState (?s0\<lparr>canvas := cv\<rparr>))" by auto
  with assms(1) have down: "handleMouseDown R prompt press s = Inr a"
    by (simp add: handleMouseDown_def executeToolAction_def Let_def)
  have a': "currentTool a = Fill" "isDrawing a" "historyIndex a < int (length (history a))"
    "if ?eq then same_log a s \<and> canvas a = canvas s
     else same_log a (saveState (s\<lparr>canvas := canvas a\<rparr>))"
  proof -
    show "currentTool a = Fill" "isDrawing a" using a(2) assms(1) by (auto split: if_splits)
    show "historyIndex a < int (length (history a))"
      using a(2) assms(2) by (auto simp: saveState_cursor_last split: if_splits)
    show "if ?eq then same_log a s \<and> canvas a = canvas s
     else same_log a (saveState (s\<lparr>canvas := canvas a\<rparr>))"
      using a(2) by (auto simp: same_log_def saveState_def Let_def split: if_splits)
  qed
  from moves_keep [OF a'(3), of R prompt moves] obtain t where
    t: "handleMoves R prompt moves a = Inr t" "keeps t a" by blast
  with a'(1,2) have up: "handleMouseUp R prompt release t = Inr (t\<lparr>isDrawing := False\<rparr>)"
    by (simp add: handleMouseUp_def executeToolAction_def bindE_def keeps_def)
  have g: "gesture R prompt press moves release s = Inr (t\<lparr>isDrawing := False\<rparr>)"
    using down t(1) up by (simp add: gesture_def bindE_def)
  have canv: "canvas t = canvas a"
    using t(1) a'(1,2)
  proof (induction moves arbitrary: a)
    case Nil
    then show ?case by simp
  next
    case (Cons pos moves)
    let ?b = "a\<lparr>endX := fst pos, endY := snd pos\<rparr>"
    from Cons.prems(2,3) have "handleMouseMove R prompt pos a = Inr ?b"
      by (simp add: handleMouseMove_def executeToolAction_def)
    with Cons.prems(1) have "handleMoves R prompt moves ?b = Inr t" by (simp add: bindE_def)
    from Cons.IH [OF this] Cons.prems(2,3) show ?case by simp
  qed
  show ?thesis
  proof (cases ?eq)
    case True
    with a'(4) t(2) canv g show ?thesis by (simp add: keeps_def same_log_def)
  next
    case False
    with a'(4) t(2) canv g show ?thesis
      by (simp add: keeps_def same_log_def)
  qed
qed

end
